theory Spec2Isabelle
  imports Main "HOL-Library.Word" "HOL-Library.AList"
begin

unbundle bit_operations_syntax

section \<open>JSON values, \<open>JSON.stringify\<close> and \<open>JSON.parse\<close>\<close>

text \<open>
  The database helper and the machine-id resetter pass their values through the platform's
  \<open>JSON.stringify\<close> and \<open>JSON.parse\<close>. Both are modelled here on the values the code
  handles: \<open>null\<close>, booleans, integral numbers, strings, arrays and objects. An object is
  the list of its members in enumeration order. Characters are the 8-bit \<open>char\<close> of HOL,
  standing for the code units of a JavaScript string below 256. Numbers with a fraction or
  an exponent, code units from 256 on, and JavaScript's rule that enumerates array-index
  keys of an object first are outside the model.
\<close>

datatype json =
    JNull
  | JBool bool
  | JNum int
  | JStr string
  | JArr "json list"
  | JObj "(string \<times> json) list"

subsection \<open>\<open>String(n)\<close> and string quoting\<close>

definition digit_char :: "nat \<Rightarrow> char" where
  "digit_char d = char_of (48 + d)"

fun digits_of :: "nat \<Rightarrow> string" where
  "digits_of n = (if n < 10 then [digit_char n] else digits_of (n div 10) @ [digit_char (n mod 10)])"

declare digits_of.simps [simp del]

definition String_of_int :: "int \<Rightarrow> string" where
  "String_of_int i = (if i < 0 then CHR ''-'' # digits_of (nat (- i)) else digits_of (nat i))"

definition hex_char :: "nat \<Rightarrow> char" where
  "hex_char d = (if d < 10 then char_of (48 + d) else char_of (87 + d))"

text \<open>
  \<open>QuoteJSONString\<close> of ECMAScript: the quotation mark and the backslash are escaped,
  the control characters below \<open>0x20\<close> are written with their short escape or as
  \<open>\u00XX\<close>, every other character is written as it is.
\<close>

definition escape_char :: "char \<Rightarrow> string" where
  "escape_char c =
     (if c = CHR 0x22 then [CHR 0x5C, CHR 0x22]
      else if c = CHR 0x5C then [CHR 0x5C, CHR 0x5C]
      else if c = CHR 0x08 then [CHR 0x5C, CHR ''b'']
      else if c = CHR 0x0C then [CHR 0x5C, CHR ''f'']
      else if c = CHR 0x0A then [CHR 0x5C, CHR ''n'']
      else if c = CHR 0x0D then [CHR 0x5C, CHR ''r'']
      else if c = CHR 0x09 then [CHR 0x5C, CHR ''t'']
      else if of_char c < (32::nat) then
        [CHR 0x5C, CHR ''u'', CHR ''0'', CHR ''0'',
         hex_char (of_char c div 16), hex_char (of_char c mod 16)]
      else [c])"

definition quote :: "string \<Rightarrow> string" where
  "quote s = CHR 0x22 # concat (map escape_char s) @ [CHR 0x22]"

subsection \<open>\<open>JSON.stringify(value)\<close>\<close>

fun JSON_stringify :: "json \<Rightarrow> string"
  and stringify_elements :: "json list \<Rightarrow> string"
  and stringify_members :: "(string \<times> json) list \<Rightarrow> string"
where
  "JSON_stringify JNull = ''null''"
| "JSON_stringify (JBool b) = (if b then ''true'' else ''false'')"
| "JSON_stringify (JNum n) = String_of_int n"
| "JSON_stringify (JStr s) = quote s"
| "JSON_stringify (JArr xs) = ''['' @ stringify_elements xs @ '']''"
| "JSON_stringify (JObj kvs) = ''{'' @ stringify_members kvs @ ''}''"
| "stringify_elements [] = []"
| "stringify_elements [x] = JSON_stringify x"
| "stringify_elements (x # y # xs) = JSON_stringify x @ '','' @ stringify_elements (y # xs)"
| "stringify_members [] = []"
| "stringify_members [(k, v)] = quote k @ '':'' @ JSON_stringify v"
| "stringify_members ((k, v) # m # kvs) =
     quote k @ '':'' @ JSON_stringify v @ '','' @ stringify_members (m # kvs)"

subsection \<open>\<open>JSON.stringify(value, null, 2)\<close>\<close>

text \<open>
  The same with a gap of two spaces: every member or element on a line of its own, indented
  by the nesting depth, a space after each colon, empty containers written \<open>{}\<close> and
  \<open>[]\<close>. The first argument is the indentation of the enclosing line.
\<close>

definition newline_indent :: "nat \<Rightarrow> string" where
  "newline_indent n = CHR 0x0A # replicate n (CHR '' '')"

fun stringify2 :: "nat \<Rightarrow> json \<Rightarrow> string"
  and stringify2_elements :: "nat \<Rightarrow> json list \<Rightarrow> string"
  and stringify2_members :: "nat \<Rightarrow> (string \<times> json) list \<Rightarrow> string"
where
  "stringify2 n JNull = ''null''"
| "stringify2 n (JBool b) = (if b then ''true'' else ''false'')"
| "stringify2 n (JNum i) = String_of_int i"
| "stringify2 n (JStr s) = quote s"
| "stringify2 n (JArr xs) =
     (if xs = [] then ''[]''
      else ''['' @ newline_indent (n + 2) @ stringify2_elements (n + 2) xs @
           newline_indent n @ '']'')"
| "stringify2 n (JObj kvs) =
     (if kvs = [] then ''{}''
      else ''{'' @ newline_indent (n + 2) @ stringify2_members (n + 2) kvs @
           newline_indent n @ ''}'')"
| "stringify2_elements n [] = []"
| "stringify2_elements n [x] = stringify2 n x"
| "stringify2_elements n (x # y # xs) =
     stringify2 n x @ '','' @ newline_indent n @ stringify2_elements n (y # xs)"
| "stringify2_members n [] = []"
| "stringify2_members n [(k, v)] = quote k @ '': '' @ stringify2 n v"
| "stringify2_members n ((k, v) # m # kvs) =
     quote k @ '': '' @ stringify2 n v @ '','' @ newline_indent n @
     stringify2_members n (m # kvs)"

definition JSON_stringify_indent2 :: "json \<Rightarrow> string" where
  "JSON_stringify_indent2 v = stringify2 0 v"

subsection \<open>\<open>JSON.parse\<close>\<close>

text \<open>
  A recursive-descent parser for the JSON grammar: white space between tokens, the three
  literals, numbers without a leading zero, strings with their escapes (a raw control
  character ends the parse), arrays and objects. A number followed by a fraction or an
  exponent, and a \<open>\u\<close> escape from 256 on, are not values of this model and give \<open>None\<close>.
\<close>

definition is_digit :: "char \<Rightarrow> bool" where
  "is_digit c = (48 \<le> (of_char c :: nat) \<and> (of_char c :: nat) \<le> 57)"

definition digit_val :: "char \<Rightarrow> nat" where
  "digit_val c = of_char c - 48"

definition nat_of_digits :: "string \<Rightarrow> nat" where
  "nat_of_digits ds = foldl (\<lambda>a c. 10 * a + digit_val c) 0 ds"

definition hex_val :: "char \<Rightarrow> nat option" where
  "hex_val c =
     (let n = (of_char c :: nat)
      in if 48 \<le> n \<and> n \<le> 57 then Some (n - 48)
         else if 97 \<le> n \<and> n \<le> 102 then Some (n - 87)
         else if 65 \<le> n \<and> n \<le> 70 then Some (n - 55)
         else None)"

definition hex4 :: "char \<Rightarrow> char \<Rightarrow> char \<Rightarrow> char \<Rightarrow> char option" where
  "hex4 a b c d =
     (case (hex_val a, hex_val b, hex_val c, hex_val d) of
        (Some h3, Some h2, Some h1, Some h0) \<Rightarrow>
          if h3 = 0 \<and> h2 = 0 then Some (char_of (16 * h1 + h0)) else None
      | _ \<Rightarrow> None)"

definition unescape :: "char \<Rightarrow> char option" where
  "unescape e =
     (if e = CHR 0x22 then Some (CHR 0x22)
      else if e = CHR 0x5C then Some (CHR 0x5C)
      else if e = CHR ''/'' then Some (CHR ''/'')
      else if e = CHR ''b'' then Some (CHR 0x08)
      else if e = CHR ''f'' then Some (CHR 0x0C)
      else if e = CHR ''n'' then Some (CHR 0x0A)
      else if e = CHR ''r'' then Some (CHR 0x0D)
      else if e = CHR ''t'' then Some (CHR 0x09)
      else None)"

definition cons_result :: "'a \<Rightarrow> ('a list \<times> string) option \<Rightarrow> ('a list \<times> string) option" where
  "cons_result x r = (case r of None \<Rightarrow> None | Some (xs, rest) \<Rightarrow> Some (x # xs, rest))"

fun parse_chars :: "string \<Rightarrow> (string \<times> string) option" where
  "parse_chars [] = None"
| "parse_chars (c # cs) =
     (if c = CHR 0x22 then Some ([], cs)
      else if c = CHR 0x5C then
        (case cs of
           [] \<Rightarrow> None
         | e # r \<Rightarrow>
             if e = CHR ''u'' then
               (case r of
                  a # b # c' # d # r' \<Rightarrow>
                    (case hex4 a b c' d of
                       None \<Rightarrow> None
                     | Some ch \<Rightarrow> cons_result ch (parse_chars r'))
                | _ \<Rightarrow> None)
             else
               (case unescape e of
                  None \<Rightarrow> None
                | Some ch \<Rightarrow> cons_result ch (parse_chars r)))
      else if of_char c < (32::nat) then None
      else cons_result c (parse_chars cs))"

definition is_ws :: "char \<Rightarrow> bool" where
  "is_ws c = (c = CHR '' '' \<or> c = CHR 0x09 \<or> c = CHR 0x0A \<or> c = CHR 0x0D)"

definition skip_ws :: "string \<Rightarrow> string" where
  "skip_ws s = dropWhile is_ws s"

definition parse_number :: "string \<Rightarrow> (json \<times> string) option" where
  "parse_number s =
     (let neg = (s \<noteq> [] \<and> hd s = CHR ''-'');
          s1 = (if neg then tl s else s);
          ds = takeWhile is_digit s1;
          rest = dropWhile is_digit s1
      in if ds = [] \<or> (1 < length ds \<and> hd ds = CHR ''0'') then None
         else if rest \<noteq> [] \<and> hd rest \<in> {CHR ''.'', CHR ''e'', CHR ''E''} then None
         else Some (JNum (if neg then - int (nat_of_digits ds) else int (nat_of_digits ds)), rest))"

definition parse_literal :: "string \<Rightarrow> (json \<times> string) option" where
  "parse_literal s =
     (if take 4 s = ''null'' then Some (JNull, drop 4 s)
      else if take 4 s = ''true'' then Some (JBool True, drop 4 s)
      else if take 5 s = ''false'' then Some (JBool False, drop 5 s)
      else parse_number s)"

text \<open>
  Members are assigned to the object in the order of the text: a key met again replaces the
  value of the earlier member, in its place.
\<close>

definition make_object :: "(string \<times> json) list \<Rightarrow> json" where
  "make_object kvs = JObj (foldl (\<lambda>obj (k, v). AList.update k v obj) [] kvs)"

text \<open>
  The three mutually recursive parsers return the value and the rest of the text. The tests
  \<open>length r < length s\<close> are there for the termination proof only: every parser returns
  a proper suffix of its input, so the tests never fail (\<open>parse_elements_plain\<close> and
  \<open>parse_members_plain\<close> below are the same equations without them).
\<close>

lemma skip_ws_length: "length (skip_ws s) \<le> length s"
  by (simp add: skip_ws_def length_dropWhile_le)

lemma skip_ws_length_eq: "length (skip_ws s) = length s - length (takeWhile is_ws s)"
  unfolding skip_ws_def by (induction s) simp_all

lemma skip_ws_Cons_length: "skip_ws s = c # r \<Longrightarrow> length r < length s"
  using skip_ws_length [of s] by simp

function parse_value :: "string \<Rightarrow> (json \<times> string) option"
  and parse_elements :: "string \<Rightarrow> (json list \<times> string) option"
  and parse_members :: "string \<Rightarrow> ((string \<times> json) list \<times> string) option"
where
  "parse_value s =
     (case s of
        [] \<Rightarrow> None
      | c # r \<Rightarrow>
          if c = CHR ''['' then
            (case skip_ws r of
               [] \<Rightarrow> None
             | c1 # r1 \<Rightarrow>
                 if c1 = CHR '']'' then Some (JArr [], r1)
                 else (case parse_elements (skip_ws r) of
                         None \<Rightarrow> None
                       | Some (xs, r2) \<Rightarrow> Some (JArr xs, r2)))
          else if c = CHR ''{'' then
            (case skip_ws r of
               [] \<Rightarrow> None
             | c1 # r1 \<Rightarrow>
                 if c1 = CHR ''}'' then Some (JObj [], r1)
                 else (case parse_members (skip_ws r) of
                         None \<Rightarrow> None
                       | Some (kvs, r2) \<Rightarrow> Some (make_object kvs, r2)))
          else if c = CHR 0x22 then
            (case parse_chars r of
               None \<Rightarrow> None
             | Some (str, r1) \<Rightarrow> Some (JStr str, r1))
          else parse_literal s)"
| "parse_elements s =
     (case parse_value s of
        None \<Rightarrow> None
      | Some (x, r) \<Rightarrow>
          (case skip_ws r of
             [] \<Rightarrow> None
           | c # r1 \<Rightarrow>
               if c = CHR '']'' then Some ([x], r1)
               else if c = CHR '','' \<and> length r1 < length s
               then cons_result x (parse_elements (skip_ws r1))
               else None))"
| "parse_members s =
     (case s of
        [] \<Rightarrow> None
      | q # r \<Rightarrow>
          if q \<noteq> CHR 0x22 then None
          else
            (case parse_chars r of
               None \<Rightarrow> None
             | Some (k, r1) \<Rightarrow>
                 (case skip_ws r1 of
                    [] \<Rightarrow> None
                  | c1 # r2 \<Rightarrow>
                      if c1 = CHR '':'' \<and> length r2 < length s then
                        (case parse_value (skip_ws r2) of
                           None \<Rightarrow> None
                         | Some (v, r3) \<Rightarrow>
                             (case skip_ws r3 of
                                [] \<Rightarrow> None
                              | c3 # r4 \<Rightarrow>
                                  if c3 = CHR ''}'' then Some ([(k, v)], r4)
                                  else if c3 = CHR '','' \<and> length r4 < length s
                                  then cons_result (k, v) (parse_members (skip_ws r4))
                                  else None))
                      else None)))"
  by pat_completeness auto
termination
  apply (relation "measure (\<lambda>x. case x of
          Inl s \<Rightarrow> 2 * length s
        | Inr (Inl s) \<Rightarrow> 2 * length s + 1
        | Inr (Inr s) \<Rightarrow> 2 * length s + 1)")
  apply (auto dest: skip_ws_Cons_length simp: skip_ws_length_eq)
  done

declare parse_value.simps [simp del] parse_elements.simps [simp del] parse_members.simps [simp del]

definition JSON_parse :: "string \<Rightarrow> json option" where
  "JSON_parse s =
     (case parse_value (skip_ws s) of
        None \<Rightarrow> None
      | Some (v, r) \<Rightarrow> if skip_ws r = [] then Some v else None)"

text \<open>
  Every JavaScript object has pairwise different keys; \<open>unique_keys\<close> says so of every
  object inside a value.
\<close>

fun unique_keys :: "json \<Rightarrow> bool"
  and unique_keys_elements :: "json list \<Rightarrow> bool"
  and unique_keys_members :: "(string \<times> json) list \<Rightarrow> bool"
where
  "unique_keys (JArr xs) = unique_keys_elements xs"
| "unique_keys (JObj kvs) = (distinct (map fst kvs) \<and> unique_keys_members kvs)"
| "unique_keys JNull = True"
| "unique_keys (JBool b) = True"
| "unique_keys (JNum n) = True"
| "unique_keys (JStr s) = True"
| "unique_keys_elements [] = True"
| "unique_keys_elements (x # xs) = (unique_keys x \<and> unique_keys_elements xs)"
| "unique_keys_members [] = True"
| "unique_keys_members ((k, v) # kvs) = (unique_keys v \<and> unique_keys_members kvs)"

text \<open>
  What may follow a value inside a text: nothing, or a comma or closing bracket.
\<close>

definition ends_number :: "string \<Rightarrow> bool" where
  "ends_number rest = (rest = [] \<or> hd rest \<in> {CHR '','', CHR '']'', CHR ''}''})"

section \<open>The environment of the extension\<close>

text \<open>
  Everything the three services reach outside themselves is one state, threaded through
  every operation: the two files, the outcomes of the file writes to come, the platform
  name, the patch service and the editor commands, the hash functions and the random
  source of \<open>crypto\<close>, and the trace of what the code did to the outside world.
  A JavaScript exception is an \<open>Error\<close> with its message, returned on the left of a sum.
\<close>

datatype error = Error (message: string)

type_synonym byte = "8 word"

text \<open>
  A row of \<open>ItemTable\<close> holds a key and a value of one of SQLite's storage classes.
  The table is the list of its rows in the order of their row ids.
\<close>

datatype sql_value = SqlNull | SqlInteger int | SqlText string | SqlBlob "byte list"

type_synonym table = "(string \<times> sql_value) list"

datatype file_id = DbFile | StorageFile

datatype event =
    WriteFile file_id
  | ExecuteCommand string "json list"
  | ShowInformationMessage string
  | Sleep nat
  | ReloadWindowAfter nat

text \<open>
  Modelled from the spec: \<open>WindsurfPatchService.checkAndApplyPatch\<close>, whose source file
  \<open>windsurfPatchService.ts\<close> is not among the sources. The specification gives its
  contract as \<open>checkAndApply() -> { needsRestart: bool, error?: string }\<close>; the switcher
  reads these two fields. What the call returns, or the error it throws, is the field
  \<open>patch\<close> of the environment.
\<close>

record patch_result =
  patch_needsRestart :: bool
  patch_error :: "string option"

text \<open>
  \<open>db_file\<close> is what reading \<open>state.vscdb\<close> and opening it as a database gives: an error,
  or the rows of \<open>ItemTable\<close> (a file that is no database with that table counts among
  those that fail to load; the sql.js engine itself is taken to start). \<open>storage_file\<close>
  is what reading \<open>storage.json\<close> gives.
  \<open>write_faults\<close> lists the outcomes of the coming calls of \<open>fs.writeFile\<close>, first
  call first; once the list is used up every write succeeds. \<open>entropy w i j\<close> is byte
  \<open>j\<close> of the \<open>i\<close>-th block the random source hands out, \<open>draws\<close> counts the blocks
  handed out so far.
\<close>

record world =
  db_file :: "error + table"
  storage_file :: "error + string"
  write_faults :: "error option list"
  platform :: string
  patch :: "error + patch_result"
  commands :: "string \<Rightarrow> error option"
  sha256 :: "byte list \<Rightarrow> byte list"
  sha512 :: "byte list \<Rightarrow> byte list"
  entropy :: "nat \<Rightarrow> nat \<Rightarrow> byte"
  draws :: nat
  trace :: "event list"

definition emit :: "event \<Rightarrow> world \<Rightarrow> world" where
  "emit ev w = w\<lparr>trace := trace w @ [ev]\<rparr>"

text \<open>
  One call of \<open>fs.writeFile\<close>: it is recorded in the trace and takes the next outcome
  from \<open>write_faults\<close>. A write that fails leaves the file as it was.
\<close>

definition write_outcome :: "world \<Rightarrow> error option" where
  "write_outcome w = (case write_faults w of [] \<Rightarrow> None | r # rest \<Rightarrow> r)"

text \<open>The outcome of the write after \<open>i\<close> further writes.\<close>

definition outcome_at :: "world \<Rightarrow> nat \<Rightarrow> error option" where
  "outcome_at w i = write_outcome (w\<lparr>write_faults := drop i (write_faults w)\<rparr>)"

definition next_write :: "file_id \<Rightarrow> world \<Rightarrow> error option \<times> world" where
  "next_write f w =
     (write_outcome w, emit (WriteFile f) (w\<lparr>write_faults := drop 1 (write_faults w)\<rparr>))"

definition writeFile_db :: "table \<Rightarrow> world \<Rightarrow> error option \<times> world" where
  "writeFile_db tbl w =
     (case next_write DbFile w of
        (None, w1) \<Rightarrow> (None, w1\<lparr>db_file := Inr tbl\<rparr>)
      | (Some e, w1) \<Rightarrow> (Some e, w1))"

definition writeFile_storage :: "string \<Rightarrow> world \<Rightarrow> error option \<times> world" where
  "writeFile_storage content w =
     (case next_write StorageFile w of
        (None, w1) \<Rightarrow> (None, w1\<lparr>storage_file := Inr content\<rparr>)
      | (Some e, w1) \<Rightarrow> (Some e, w1))"

text \<open>\<open>crypto.randomBytes(n)\<close>: the next block of the random source, \<open>n\<close> bytes long.\<close>

definition randomBytes :: "nat \<Rightarrow> world \<Rightarrow> byte list \<times> world" where
  "randomBytes n w = (map (entropy w (draws w)) [0..<n], w\<lparr>draws := draws w + 1\<rparr>)"

text \<open>\<open>vscode.commands.executeCommand\<close>: recorded in the trace; it throws when the
  environment says so for that command.\<close>

definition executeCommand :: "string \<Rightarrow> json list \<Rightarrow> world \<Rightarrow> error option \<times> world" where
  "executeCommand cmd args w = (commands w cmd, emit (ExecuteCommand cmd args) w)"


section \<open>The statements the helper sends to the SQL engine\<close>

text \<open>
  The sql.js engine is outside the repository. Its four statements are modelled on the
  table by what SQLite documents for them, with \<open>key\<close> a unique column as the store has it:
  \<open>INSERT OR REPLACE\<close> removes the row of that key and appends the new row.
\<close>

definition sql_select_value :: "table \<Rightarrow> string \<Rightarrow> sql_value list" where
  "sql_select_value tbl key = map snd (filter (\<lambda>row. fst row = key) tbl)"

definition sql_insert_or_replace :: "table \<Rightarrow> string \<Rightarrow> sql_value \<Rightarrow> table" where
  "sql_insert_or_replace tbl key v = filter (\<lambda>row. fst row \<noteq> key) tbl @ [(key, v)]"

definition sql_delete :: "table \<Rightarrow> string \<Rightarrow> table" where
  "sql_delete tbl key = filter (\<lambda>row. fst row \<noteq> key) tbl"

text \<open>
  SQLite's \<open>LIKE\<close> without an escape character: \<open>%\<close> matches any run of characters, also
  the empty one, \<open>_\<close> matches exactly one character, and any other character matches itself,
  upper and lower case of the ASCII letters taken as equal.
\<close>

definition to_lower :: "char \<Rightarrow> char" where
  "to_lower c =
     (if 65 \<le> (of_char c :: nat) \<and> (of_char c :: nat) \<le> 90 then char_of (of_char c + 32 :: nat)
      else c)"

fun sql_like :: "string \<Rightarrow> string \<Rightarrow> bool" where
  "sql_like [] s = (s = [])"
| "sql_like (p # ps) s =
     (if p = CHR ''%'' then
        (sql_like ps s \<or> (case s of [] \<Rightarrow> False | c # cs \<Rightarrow> sql_like (p # ps) cs))
      else
        (case s of
           [] \<Rightarrow> False
         | c # cs \<Rightarrow> (p = CHR ''_'' \<or> to_lower p = to_lower c) \<and> sql_like ps cs))"

definition sql_select_keys_like :: "table \<Rightarrow> string \<Rightarrow> string list" where
  "sql_select_keys_like tbl pattern = map fst (filter (\<lambda>row. sql_like pattern (fst row)) tbl)"


section \<open>Database helper (databaseHelper.ts)\<close>

text \<open>
  The values \<open>writeToDB\<close> is handed and \<open>readFromDB\<close> returns: \<open>undefined\<close>, a \<open>Buffer\<close>,
  a \<open>Uint8Array\<close>, or a JSON value (\<open>null\<close>, boolean, number, string, array, object).
\<close>

datatype jsvalue = Undefined | Buffer "byte list" | Uint8Array "byte list" | Json json

text \<open>\<open>Array.from(value)\<close> on a byte sequence: the numbers of its bytes.\<close>

definition Array_from :: "byte list \<Rightarrow> json" where
  "Array_from bs = JArr (map (\<lambda>b. JNum (uint b)) bs)"

text \<open>
  The text \<open>finalValue\<close> that \<open>writeToDB\<close> stores, by the four branches of the source:
  \<open>Buffer\<close>, \<open>Uint8Array\<close>, \<open>typeof value === 'object'\<close>, and \<open>String(value)\<close> for the rest.
\<close>

definition finalValue :: "jsvalue \<Rightarrow> string" where
  "finalValue v =
     (case v of
        Buffer bs \<Rightarrow> JSON_stringify (JObj [(''type'', JStr ''Buffer''), (''data'', Array_from bs)])
      | Uint8Array bs \<Rightarrow>
          JSON_stringify (JObj [(''type'', JStr ''Buffer''), (''data'', Array_from bs)])
      | Json (JArr xs) \<Rightarrow> JSON_stringify (JArr xs)
      | Json (JObj kvs) \<Rightarrow> JSON_stringify (JObj kvs)
      | Json JNull \<Rightarrow> JSON_stringify JNull
      | Json (JBool b) \<Rightarrow> (if b then ''true'' else ''false'')
      | Json (JNum n) \<Rightarrow> String_of_int n
      | Json (JStr s) \<Rightarrow> s
      | Undefined \<Rightarrow> ''undefined'')"

definition readFromDB :: "string \<Rightarrow> world \<Rightarrow> jsvalue" where
  "readFromDB key w =
     (case db_file w of
        Inl e \<Rightarrow> Json JNull
      | Inr tbl \<Rightarrow>
          (case sql_select_value tbl key of
             [] \<Rightarrow> Json JNull
           | v # _ \<Rightarrow>
               (case v of
                  SqlText s \<Rightarrow>
                    (case JSON_parse s of Some j \<Rightarrow> Json j | None \<Rightarrow> Json (JStr s))
                | SqlNull \<Rightarrow> Json JNull
                | SqlInteger i \<Rightarrow> Json (JNum i)
                | SqlBlob bs \<Rightarrow> Uint8Array bs)))"

definition writeToDB :: "string \<Rightarrow> jsvalue \<Rightarrow> world \<Rightarrow> (error + bool) \<times> world" where
  "writeToDB key v w =
     (if v = Json JNull \<or> v = Undefined then
        (Inl (Error (''Cannot write null/undefined value to key: '' @ key)), w)
      else
        (case db_file w of
           Inl e \<Rightarrow> (Inl e, w)
         | Inr tbl \<Rightarrow>
             (case writeFile_db (sql_insert_or_replace tbl key (SqlText (finalValue v))) w of
                (Some e, w1) \<Rightarrow> (Inl e, w1)
              | (None, w1) \<Rightarrow> (Inr True, w1))))"

definition deleteFromDB :: "string \<Rightarrow> world \<Rightarrow> bool \<times> world" where
  "deleteFromDB key w =
     (case db_file w of
        Inl e \<Rightarrow> (False, w)
      | Inr tbl \<Rightarrow>
          (case writeFile_db (sql_delete tbl key) w of
             (Some e, w1) \<Rightarrow> (False, w1)
           | (None, w1) \<Rightarrow> (True, w1)))"

text \<open>The loop of \<open>deleteByPattern\<close> over the rows the \<open>SELECT\<close> returned.\<close>

fun delete_rows :: "string list \<Rightarrow> table \<Rightarrow> nat \<Rightarrow> table \<times> nat" where
  "delete_rows [] tbl deletedCount = (tbl, deletedCount)"
| "delete_rows (row # rows) tbl deletedCount =
     delete_rows rows (sql_delete tbl row) (deletedCount + 1)"

definition deleteByPattern :: "string \<Rightarrow> world \<Rightarrow> nat \<times> world" where
  "deleteByPattern pattern w =
     (case db_file w of
        Inl e \<Rightarrow> (0, w)
      | Inr tbl \<Rightarrow>
          (case delete_rows (sql_select_keys_like tbl pattern) tbl 0 of
             (tbl1, deletedCount) \<Rightarrow>
               (case writeFile_db tbl1 w of
                  (Some e, w1) \<Rightarrow> (0, w1)
                | (None, w1) \<Rightarrow> (deletedCount, w1))))"

text \<open>The rows of the database file, none when it does not load.\<close>

definition stored_rows :: "world \<Rightarrow> table" where
  "stored_rows w = (case db_file w of Inl e \<Rightarrow> [] | Inr tbl \<Rightarrow> tbl)"

section \<open>Machine-id resetter (machineIdReset.ts)\<close>

record machine_ids =
  machineId :: string
  macMachineId :: string
  sqmId :: string
  devDeviceId :: string
  serviceMachineId :: string

text \<open>\<open>digest('hex')\<close>: two lower-case hexadecimal digits for every byte.\<close>

definition hex_byte :: "byte \<Rightarrow> string" where
  "hex_byte b = [hex_char (unat b div 16), hex_char (unat b mod 16)]"

definition digest_hex :: "byte list \<Rightarrow> string" where
  "digest_hex bs = concat (map hex_byte bs)"

text \<open>
  \<open>uuidv4()\<close> of the \<open>uuid\<close> package: sixteen random bytes, the version and variant
  bits set, written as five groups of hexadecimal digits.
\<close>

definition uuid_stamp :: "byte list \<Rightarrow> byte list" where
  "uuid_stamp rnds =
     (rnds[6 := (rnds ! 6 AND 0x0f) OR 0x40])[8 := (rnds ! 8 AND 0x3f) OR 0x80]"

definition uuid_text :: "byte list \<Rightarrow> string" where
  "uuid_text bs =
     digest_hex (take 4 bs) @ ''-'' @ digest_hex (take 2 (drop 4 bs)) @ ''-'' @
     digest_hex (take 2 (drop 6 bs)) @ ''-'' @ digest_hex (take 2 (drop 8 bs)) @ ''-'' @
     digest_hex (take 6 (drop 10 bs))"

definition uuidv4 :: "world \<Rightarrow> string \<times> world" where
  "uuidv4 w = (case randomBytes 16 w of (rnds, w1) \<Rightarrow> (uuid_text (uuid_stamp rnds), w1))"

definition to_upper :: "char \<Rightarrow> char" where
  "to_upper c =
     (if 97 \<le> (of_char c :: nat) \<and> (of_char c :: nat) \<le> 122 then char_of (of_char c - 32 :: nat)
      else c)"

definition toUpperCase :: "string \<Rightarrow> string" where
  "toUpperCase s = map to_upper s"

text \<open>The fields of the object literal are evaluated in the order they are written.\<close>

definition generateMachineIds :: "world \<Rightarrow> machine_ids \<times> world" where
  "generateMachineIds w =
     (case randomBytes 32 w of (r32, w1) \<Rightarrow>
      case randomBytes 64 w1 of (r64, w2) \<Rightarrow>
      case uuidv4 w2 of (u1, w3) \<Rightarrow>
      case uuidv4 w3 of (u2, w4) \<Rightarrow>
      case uuidv4 w4 of (u3, w5) \<Rightarrow>
        (\<lparr>machineId = digest_hex (sha256 w r32),
          macMachineId = digest_hex (sha512 w r64),
          sqmId = ''{'' @ toUpperCase u1 @ ''}'',
          devDeviceId = u2,
          serviceMachineId = u3\<rparr>, w5))"

text \<open>
  \<open>storageData[k] = v\<close> on what \<open>JSON.parse\<close> gave. On an object the member is set, in
  place when the key is there. On an array the property is set beside the elements, where
  \<open>JSON.stringify\<close> does not see it. On \<open>null\<close>, and in the strict mode of a module on
  a number, string or boolean, the assignment throws a \<open>TypeError\<close>.
\<close>

definition set_property :: "json \<Rightarrow> string \<Rightarrow> json \<Rightarrow> error + json" where
  "set_property obj k v =
     (case obj of
        JObj kvs \<Rightarrow> Inr (JObj (AList.update k v kvs))
      | JArr xs \<Rightarrow> Inr (JArr xs)
      | JNull \<Rightarrow>
          Inl (Error (''Cannot set properties of null (setting '' @ [CHR 0x27] @ k @
                      [CHR 0x27] @ '')''))
      | JBool b \<Rightarrow>
          Inl (Error (''Cannot create property '' @ [CHR 0x27] @ k @ [CHR 0x27] @
                      '' on boolean '' @ [CHR 0x27] @ JSON_stringify obj @ [CHR 0x27]))
      | JNum n \<Rightarrow>
          Inl (Error (''Cannot create property '' @ [CHR 0x27] @ k @ [CHR 0x27] @
                      '' on number '' @ [CHR 0x27] @ JSON_stringify obj @ [CHR 0x27]))
      | JStr s \<Rightarrow>
          Inl (Error (''Cannot create property '' @ [CHR 0x27] @ k @ [CHR 0x27] @
                      '' on string '' @ [CHR 0x27] @ s @ [CHR 0x27])))"

text \<open>
  The document \<open>resetMachineId\<close> starts from: the parsed content of \<open>storage.json\<close>, and the
  empty object when the file cannot be read or its content is not JSON.
\<close>

definition read_storageData :: "world \<Rightarrow> json" where
  "read_storageData w =
     (case storage_file w of
        Inl e \<Rightarrow> JObj []
      | Inr content \<Rightarrow> (case JSON_parse content of None \<Rightarrow> JObj [] | Some j \<Rightarrow> j))"

definition update_fields :: "string \<Rightarrow> machine_ids \<Rightarrow> json \<Rightarrow> error + json" where
  "update_fields plat ids d0 =
     (case set_property d0 ''telemetry.machineId'' (JStr (machineId ids)) of
        Inl e \<Rightarrow> Inl e
      | Inr d1 \<Rightarrow>
          (case set_property d1 ''telemetry.sqmId'' (JStr (sqmId ids)) of
             Inl e \<Rightarrow> Inl e
           | Inr d2 \<Rightarrow>
               (case set_property d2 ''telemetry.devDeviceId'' (JStr (devDeviceId ids)) of
                  Inl e \<Rightarrow> Inl e
                | Inr d3 \<Rightarrow>
                    if plat = ''darwin''
                    then set_property d3 ''telemetry.macMachineId'' (JStr (macMachineId ids))
                    else Inr d3)))"

text \<open>
  The loop \<open>for (let i = 0; i < maxRetries; i++)\<close> that writes the file: before every
  attempt but the first it waits \<open>500 * (i + 1)\<close> milliseconds; a write that succeeds
  clears \<open>lastError\<close> and leaves the loop, one that fails is kept in \<open>lastError\<close>.
\<close>

function write_loop :: "nat \<Rightarrow> nat \<Rightarrow> string \<Rightarrow> error option \<Rightarrow> world \<Rightarrow> error option \<times> world" where
  "write_loop maxRetries i content lastError w =
     (if i < maxRetries then
        (case writeFile_storage content (if 0 < i then emit (Sleep (500 * (i + 1))) w else w) of
           (None, w1) \<Rightarrow> (None, w1)
         | (Some e, w1) \<Rightarrow> write_loop maxRetries (i + 1) content (Some e) w1)
      else (lastError, w))"
  by pat_completeness auto
termination
  by (relation "measure (\<lambda>(maxRetries, i, content, lastError, w). maxRetries - i)") auto

declare write_loop.simps [simp del]

text \<open>
  The text in front of the message of the error \<open>resetMachineId\<close> throws, a Chinese phrase
  for "resetting the machine id failed" and a colon, here as its UTF-8 bytes.
\<close>

definition RESET_FAILED :: string where
  "RESET_FAILED =
     [CHR 0xE9, CHR 0x87, CHR 0x8D, CHR 0xE7, CHR 0xBD, CHR 0xAE, CHR 0xE6, CHR 0x9C, CHR 0xBA,
      CHR 0xE5, CHR 0x99, CHR 0xA8, CHR '' '', CHR ''I'', CHR ''D'', CHR '' '', CHR 0xE5,
      CHR 0xA4, CHR 0xB1, CHR 0xE8, CHR 0xB4, CHR 0xA5, CHR '':'', CHR '' '']"

definition resetMachineId :: "world \<Rightarrow> (error + machine_ids) \<times> world" where
  "resetMachineId w =
     (case generateMachineIds w of
        (ids, w1) \<Rightarrow>
          (case update_fields (platform w1) ids (read_storageData w1) of
             Inl e \<Rightarrow> (Inl (Error (RESET_FAILED @ message e)), w1)
           | Inr storageData \<Rightarrow>
               (case write_loop 3 0 (JSON_stringify_indent2 storageData) None w1 of
                  (Some lastError, w2) \<Rightarrow> (Inl (Error (RESET_FAILED @ message lastError)), w2)
                | (None, w2) \<Rightarrow> (Inr ids, w2))))"

text \<open>The document \<open>resetMachineId\<close> hands to the write loop, when the updates go through.\<close>

definition new_storageData :: "world \<Rightarrow> error + json" where
  "new_storageData w =
     update_fields (platform w) (fst (generateMachineIds w)) (read_storageData w)"




text \<open>The events of the write loop when all three attempts are made.\<close>

definition three_attempts :: "event list" where
  "three_attempts =
     [WriteFile StorageFile, Sleep 1000, WriteFile StorageFile, Sleep 1500,
      WriteFile StorageFile]"

section \<open>Account manager (accountManager.ts)\<close>

text \<open>
  The \<open>Account\<close> interface. All nine fields are strings in the source.
\<close>

record account =
  acc_id :: string
  email :: string
  name :: string
  apiKey :: string
  apiServerUrl :: string
  refreshToken :: string
  planName :: string
  createdAt :: string
  updatedAt :: string

text \<open>
  The part of the \<open>vscode.ExtensionContext\<close> the manager touches: the account list
  and the current index kept in \<open>globalState\<close> (the index may be absent, \<open>get\<close> then
  answers the default \<open>0\<close>), and the secret storage, a map from key to secret.
\<close>

record ext_context =
  globalAccounts :: "account list"
  globalIndex :: "int option"
  secrets :: "string \<rightharpoonup> string"



definition setCurrentAccountIndex :: "int \<Rightarrow> ext_context \<Rightarrow> ext_context" where
  "setCurrentAccountIndex i ctx = ctx\<lparr>globalIndex := Some i\<rparr>"







section \<open>Account switcher (accountSwitcher.ts)\<close>

text \<open>
  The switcher is modelled without its log lines: \<open>this.log\<close> and \<open>outputChannel.clear\<close>
  write to an output channel and to the console and decide nothing. The Chinese texts of
  the source are written as their UTF-8 bytes.
\<close>

record switch_outcome =
  success :: bool
  error :: "string option"
  needsRestart :: "bool option"

text \<open>The error text of a switch cut short by a fresh patch: "patch applied, restarting".\<close>

definition PATCH_RESTART_ERROR :: string where
  "PATCH_RESTART_ERROR =
     [CHR 0xE8, CHR 0xA1, CHR 0xA5, CHR 0xE4, CHR 0xB8, CHR 0x81, CHR 0xE5, CHR 0xB7,
      CHR 0xB2, CHR 0xE5, CHR 0xBA, CHR 0x94, CHR 0xE7, CHR 0x94, CHR 0xA8, CHR 0xEF,
      CHR 0xBC, CHR 0x8C, CHR 0xE6, CHR 0xAD, CHR 0xA3, CHR 0xE5, CHR 0x9C, CHR 0xA8,
      CHR 0xE9, CHR 0x87, CHR 0x8D, CHR 0xE5, CHR 0x90, CHR 0xAF]"

text \<open>The notice shown with it: "patch applied, Windsurf is restarting; switch again after
  the restart".\<close>

definition PATCH_RESTART_NOTICE :: string where
  "PATCH_RESTART_NOTICE =
     [CHR 0xE8, CHR 0xA1, CHR 0xA5, CHR 0xE4, CHR 0xB8, CHR 0x81, CHR 0xE5, CHR 0xB7,
      CHR 0xB2, CHR 0xE5, CHR 0xBA, CHR 0x94, CHR 0xE7, CHR 0x94, CHR 0xA8, CHR 0xEF,
      CHR 0xBC, CHR 0x8C, CHR ''W'', CHR ''i'', CHR ''n'', CHR ''d'', CHR ''s'',
      CHR ''u'', CHR ''r'', CHR ''f'', CHR '' '', CHR 0xE6, CHR 0xAD, CHR 0xA3,
      CHR 0xE5, CHR 0x9C, CHR 0xA8, CHR 0xE9, CHR 0x87, CHR 0x8D, CHR 0xE5, CHR 0x90,
      CHR 0xAF, CHR 0xE3, CHR 0x80, CHR 0x82, CHR 0xE9, CHR 0x87, CHR 0x8D, CHR 0xE5,
      CHR 0x90, CHR 0xAF, CHR 0xE5, CHR 0x90, CHR 0x8E, CHR 0xE8, CHR 0xAF, CHR 0xB7,
      CHR 0xE5, CHR 0x86, CHR 0x8D, CHR 0xE6, CHR 0xAC, CHR 0xA1, CHR 0xE5, CHR 0x88,
      CHR 0x87, CHR 0xE6, CHR 0x8D, CHR 0xA2, CHR 0xE8, CHR 0xB4, CHR 0xA6, CHR 0xE5,
      CHR 0x8F, CHR 0xB7, CHR 0xE3, CHR 0x80, CHR 0x82]"

text \<open>The notice of a switch done, "account switched to: ", before the e-mail address.\<close>

definition SWITCHED_NOTICE :: string where
  "SWITCHED_NOTICE =
     [CHR 0xE8, CHR 0xB4, CHR 0xA6, CHR 0xE5, CHR 0x8F, CHR 0xB7, CHR 0xE5, CHR 0xB7,
      CHR 0xB2, CHR 0xE5, CHR 0x88, CHR 0x87, CHR 0xE6, CHR 0x8D, CHR 0xA2, CHR 0xE5,
      CHR 0x88, CHR 0xB0, CHR '':'', CHR '' '']"

definition DEFAULT_SERVER :: string where
  "DEFAULT_SERVER = ''https://server.self-serve.windsurf.com''"

text \<open>\<open>s || d\<close> on strings: the empty string is falsy.\<close>

definition or_default :: "string \<Rightarrow> string \<Rightarrow> string" where
  "or_default s d = (if s = [] then d else s)"

definition truthy :: "string option \<Rightarrow> bool" where
  "truthy r = (case r of None \<Rightarrow> False | Some s \<Rightarrow> s \<noteq> [])"

definition authStatus :: "account \<Rightarrow> string \<Rightarrow> json" where
  "authStatus account teamId =
     JObj [(''name'', JStr (name account)), (''apiKey'', JStr (apiKey account)),
           (''email'', JStr (email account)), (''teamId'', JStr teamId),
           (''planName'', JStr (or_default (planName account) ''Pro''))]"

definition codeiumConfig :: "account \<Rightarrow> string \<Rightarrow> json" where
  "codeiumConfig account installationId =
     JObj [(''codeium.installationId'', JStr installationId),
           (''codeium.apiKey'', JStr (apiKey account)),
           (''apiServerUrl'', JStr (or_default (apiServerUrl account) DEFAULT_SERVER)),
           (''codeium.hasOneTimeUpdatedUnspecifiedMode'', JBool True)]"

text \<open>
  \<open>writeAuthData\<close>: three writes in a row, each awaited; the first that throws ends the
  function with its error.
\<close>

definition writeAuthData :: "account \<Rightarrow> world \<Rightarrow> (error + unit) \<times> world" where
  "writeAuthData account w =
     (case uuidv4 w of
        (teamId, w1) \<Rightarrow>
          (case writeToDB ''windsurfAuthStatus'' (Json (authStatus account teamId)) w1 of
             (Inl e, w2) \<Rightarrow> (Inl e, w2)
           | (Inr ok, w2) \<Rightarrow>
               (case uuidv4 w2 of
                  (installationId, w3) \<Rightarrow>
                    (case writeToDB ''codeium.windsurf''
                            (Json (codeiumConfig account installationId)) w3 of
                       (Inl e, w4) \<Rightarrow> (Inl e, w4)
                     | (Inr ok, w4) \<Rightarrow>
                         (case writeToDB ''codeium.windsurf-windsurf_auth''
                                 (Json (JStr (name account))) w4 of
                            (Inl e, w5) \<Rightarrow> (Inl e, w5)
                          | (Inr ok, w5) \<Rightarrow> (Inr (), w5))))))"

definition inject_args :: "account \<Rightarrow> json" where
  "inject_args account =
     JObj [(''apiKey'', JStr (apiKey account)), (''name'', JStr (email account)),
           (''apiServerUrl'', JStr (or_default (apiServerUrl account) DEFAULT_SERVER))]"

definition INJECT_COMMAND :: string where
  "INJECT_COMMAND = ''windsurf.provideAuthTokenToAuthProviderWithShit''"

text \<open>
  Steps 2 to 4 of \<open>switchAccount\<close> up to the injection command: the logout command and
  the reset of the machine ids, whose errors are caught and dropped, then the injection
  command, whose outcome is returned.
\<close>

definition logout_reset_inject :: "account \<Rightarrow> world \<Rightarrow> error option \<times> world" where
  "logout_reset_inject account w =
     (case executeCommand ''windsurf.logout'' [] w of
        (logout_result, w1) \<Rightarrow>
          (case resetMachineId w1 of
             (reset_result, w2) \<Rightarrow> executeCommand INJECT_COMMAND [inject_args account] w2))"

text \<open>
  The inner \<open>catch\<close> block: write the records, then schedule the reload and report
  success. An error of the write leaves the block and is caught by the outer \<open>catch\<close>,
  which reports it.
\<close>

definition fallback :: "account \<Rightarrow> world \<Rightarrow> switch_outcome \<times> world" where
  "fallback account w =
     (case writeAuthData account w of
        (Inl e, w1) \<Rightarrow>
          (\<lparr>success = False, error = Some (message e), needsRestart = None\<rparr>, w1)
      | (Inr ok, w1) \<Rightarrow>
          (\<lparr>success = True, error = None, needsRestart = None\<rparr>,
           emit (ReloadWindowAfter 1500) w1))"

text \<open>
  \<open>switchAccount\<close>. The write after a successful injection stands inside the inner
  \<open>try\<close>, so an error it throws is handled by the inner \<open>catch\<close> like an error of the
  injection command.
\<close>

definition switchAccount :: "account \<Rightarrow> world \<Rightarrow> switch_outcome \<times> world" where
  "switchAccount account w =
     (case patch w of
        Inl e \<Rightarrow> (\<lparr>success = False, error = Some (message e), needsRestart = None\<rparr>, w)
      | Inr patchResult \<Rightarrow>
          if patch_needsRestart patchResult then
            (\<lparr>success = False, error = Some PATCH_RESTART_ERROR, needsRestart = Some True\<rparr>,
             emit (ReloadWindowAfter 1500) (emit (ShowInformationMessage PATCH_RESTART_NOTICE) w))
          else if truthy (patch_error patchResult) then
            (\<lparr>success = False, error = patch_error patchResult, needsRestart = None\<rparr>, w)
          else
            (case logout_reset_inject account w of
               (Some e, w3) \<Rightarrow> fallback account w3
             | (None, w3) \<Rightarrow>
                 (case writeAuthData account w3 of
                    (Inl e, w4) \<Rightarrow> fallback account w4
                  | (Inr ok, w4) \<Rightarrow>
                      (\<lparr>success = True, error = None, needsRestart = None\<rparr>,
                       emit (ShowInformationMessage (SWITCHED_NOTICE @ email account)) w4))))"

section \<open>Concrete inputs\<close>

subsection \<open>Accounts\<close>

definition alice :: account where
  "alice = \<lparr>acc_id = ''a1'', email = ''alice@example.com'', name = ''alice'', apiKey = [],
     apiServerUrl = [], refreshToken = [], planName = ''Pro'',
     createdAt = ''2025-01-01T00:00:00.000Z'', updatedAt = ''2025-01-01T00:00:00.000Z''\<rparr>"



subsection \<open>Environments\<close>

text \<open>
  An environment in which nothing fails: an empty table, no \<open>storage.json\<close>, a patch
  that is in place, commands that succeed. The two hash functions are stand-ins of the
  right digest length (the first 32 and 64 bytes of the padded input).
\<close>

definition quiet_world :: world where
  "quiet_world =
     \<lparr>db_file = Inr [], storage_file = Inl (Error ''ENOENT''), write_faults = [],
      platform = ''linux'',
      patch = Inr \<lparr>patch_needsRestart = False, patch_error = None\<rparr>,
      commands = (\<lambda>cmd. None),
      sha256 = (\<lambda>bs. take 32 (bs @ replicate 32 0)),
      sha512 = (\<lambda>bs. take 64 (bs @ replicate 64 0)),
      entropy = (\<lambda>i j. of_nat (7 * i + j)),
      draws = 0, trace = []\<rparr>"

definition three_keys :: table where
  "three_keys =
     [(''foo.a'', SqlText ''1''), (''foo.b'', SqlText ''[2]''), (''bar.c'', SqlText ''three'')]"

text \<open>
  Environments in which \<open>fs.writeFile\<close> fails twice and then succeeds, and in which it
  fails three times with three different errors.
\<close>

definition busy_twice :: world where
  "busy_twice = quiet_world\<lparr>write_faults := [Some (Error ''EBUSY''), Some (Error ''EBUSY'')]\<rparr>"

definition busy_always :: world where
  "busy_always =
     quiet_world\<lparr>write_faults := [Some (Error ''a''), Some (Error ''b''), Some (Error ''c'')]\<rparr>"


text \<open>
  Environments for the switcher: one whose database file cannot be read, one whose patch
  check has just applied the patch, one whose injection command is not available.
\<close>

definition db_unreadable :: world where
  "db_unreadable = quiet_world\<lparr>db_file := Inl (Error ''ENOENT: state.vscdb'')\<rparr>"

definition patch_fresh :: world where
  "patch_fresh =
     quiet_world\<lparr>patch := Inr \<lparr>patch_needsRestart = True, patch_error = None\<rparr>\<rparr>"

definition no_injection :: world where
  "no_injection =
     quiet_world\<lparr>commands :=
       (\<lambda>cmd. if cmd = INJECT_COMMAND then Some (Error ''command not found'') else None)\<rparr>"

section \<open>The parser consumes its input\<close>

lemma cons_result_rest:
  "cons_result x p = Some (xs, r) \<Longrightarrow> \<exists>ys. p = Some (ys, r)"
  by (auto simp: cons_result_def split: option.splits)

lemma parse_chars_shorter: "parse_chars s = Some (str, r) \<Longrightarrow> length r < length s"
proof (induction "length s" arbitrary: s str r rule: less_induct)
  case less
  show ?case
  proof (cases s)
    case Nil
    then show ?thesis using less.prems by simp
  next
    case (Cons c cs)
    note s = this
    show ?thesis
    proof (cases "c = CHR 0x22")
      case True
      then show ?thesis using less.prems s by simp
    next
      case q: False
      show ?thesis
      proof (cases "c = CHR 0x5C")
        case False
        then obtain ys where "parse_chars cs = Some (ys, r)"
          using less.prems q s by (auto split: if_splits dest: cons_result_rest)
        then have "length r < length cs"
          using less.hyps [of cs] s by simp
        then show ?thesis using s by simp
      next
        case True
        then obtain e t where cs: "cs = e # t"
          using less.prems q s by (cases cs) auto
        show ?thesis
        proof (cases "e = CHR ''u''")
          case False
          then obtain ys where "parse_chars t = Some (ys, r)"
            using less.prems q True cs s
            by (auto split: option.splits dest: cons_result_rest)
          then have "length r < length t"
            using less.hyps [of t] s cs by simp
          then show ?thesis using s cs by simp
        next
          case u: True
          then obtain a b c' d t' where t: "t = a # b # c' # d # t'"
            using less.prems q True cs s by (auto split: list.splits)
          then obtain ys where "parse_chars t' = Some (ys, r)"
            using less.prems q True cs u s
            by (auto split: option.splits dest: cons_result_rest)
          then have "length r < length t'"
            using less.hyps [of t'] s cs t by simp
          then show ?thesis using s cs t by simp
        qed
      qed
    qed
  qed
qed

lemma parse_number_shorter: "parse_number s = Some (v, r) \<Longrightarrow> length r < length s"
proof -
  assume p: "parse_number s = Some (v, r)"
  define s1 where "s1 = (if s \<noteq> [] \<and> hd s = CHR ''-'' then tl s else s)"
  have ds: "takeWhile is_digit s1 \<noteq> []" and r: "r = dropWhile is_digit s1"
    using p by (auto simp: parse_number_def Let_def s1_def split: if_splits)
  have "length (takeWhile is_digit s1) + length (dropWhile is_digit s1) = length s1"
    by (metis length_append takeWhile_dropWhile_id)
  then have "length r < length s1" using ds r by (cases "takeWhile is_digit s1") simp_all
  moreover have "length s1 \<le> length s" by (simp add: s1_def)
  ultimately show ?thesis by simp
qed

lemma parse_literal_shorter: "parse_literal s = Some (v, r) \<Longrightarrow> length r < length s"
proof -
  assume p: "parse_literal s = Some (v, r)"
  have four: "take 4 s = t \<Longrightarrow> length t = 4 \<Longrightarrow> length (drop 4 s) < length s" for t
    by (cases "length s < 4") auto
  have five: "take 5 s = t \<Longrightarrow> length t = 5 \<Longrightarrow> length (drop 5 s) < length s" for t
    by (cases "length s < 5") auto
  show ?thesis
    using p four [of "''null''"] four [of "''true''"] five [of "''false''"]
    by (auto simp: parse_literal_def split: if_splits dest: parse_number_shorter)
qed

lemma skip_ws_shorter: "length r < n \<Longrightarrow> length (skip_ws r) < n"
  using skip_ws_length [of r] by simp

lemma parsers_shorter:
  "(parse_value s = Some (v, r) \<longrightarrow> length r < length s) \<and>
   (parse_elements s = Some (xs, r) \<longrightarrow> length r < length s) \<and>
   (parse_members s = Some (kvs, r) \<longrightarrow> length r < length s)"
proof (induction "length s" arbitrary: s v r xs kvs rule: less_induct)
  case less
  have pvs: "length r' < length s" if pv: "parse_value s = Some (v', r')" for v' r'
  proof (cases s)
    case Nil
    then show ?thesis using pv by (simp add: parse_value.simps)
  next
    case (Cons c t)
    have sk: "length (skip_ws t) < length s" using Cons skip_ws_length [of t] by simp
    consider (arr) "c = CHR ''[''" | (obj) "c \<noteq> CHR ''[''" "c = CHR ''{''"
      | (str) "c \<noteq> CHR ''[''" "c \<noteq> CHR ''{''" "c = CHR 0x22"
      | (lit) "c \<noteq> CHR ''[''" "c \<noteq> CHR ''{''" "c \<noteq> CHR 0x22"
      by blast
    then show ?thesis
    proof cases
      case arr
      obtain c1 r1 where w: "skip_ws t = c1 # r1"
        using pv Cons arr by (cases "skip_ws t") (auto simp: parse_value.simps)
      show ?thesis
      proof (cases "c1 = CHR '']''")
        case True
        then have "r' = r1" using pv Cons arr w by (simp add: parse_value.simps)
        then show ?thesis using sk w by simp
      next
        case False
        then obtain ys where "parse_elements (skip_ws t) = Some (ys, r')"
          using pv Cons arr w by (auto simp: parse_value.simps split: option.splits)
        then have "length r' < length (skip_ws t)"
          using less.hyps [OF sk] by blast
        then show ?thesis using sk by simp
      qed
    next
      case obj
      obtain c1 r1 where w: "skip_ws t = c1 # r1"
        using pv Cons obj by (cases "skip_ws t") (auto simp: parse_value.simps)
      show ?thesis
      proof (cases "c1 = CHR ''}''")
        case True
        then have "r' = r1" using pv Cons obj w by (simp add: parse_value.simps)
        then show ?thesis using sk w by simp
      next
        case False
        then obtain ys where "parse_members (skip_ws t) = Some (ys, r')"
          using pv Cons obj w by (auto simp: parse_value.simps split: option.splits)
        then have "length r' < length (skip_ws t)"
          using less.hyps [OF sk] by blast
        then show ?thesis using sk by simp
      qed
    next
      case str
      then obtain str' where "parse_chars t = Some (str', r')"
        using pv Cons by (auto simp: parse_value.simps split: option.splits)
      then show ?thesis using parse_chars_shorter Cons by fastforce
    next
      case lit
      then have "parse_literal s = Some (v', r')"
        using pv Cons by (simp add: parse_value.simps)
      then show ?thesis by (rule parse_literal_shorter)
    qed
  qed
  have pes: "length r' < length s" if pe: "parse_elements s = Some (xs', r')" for xs' r'
  proof -
    obtain x r0 where pv: "parse_value s = Some (x, r0)"
      using pe by (subst (asm) parse_elements.simps) (auto split: option.splits)
    have r0: "length r0 < length s" using pvs [OF pv] .
    obtain c r1 where w: "skip_ws r0 = c # r1"
      using pe pv by (subst (asm) parse_elements.simps) (auto split: list.splits)
    have r1: "length r1 < length s"
      using skip_ws_Cons_length [OF w] r0 by simp
    show ?thesis
    proof (cases "c = CHR '']''")
      case True
      then have "r' = r1"
        using pe pv w by (subst (asm) parse_elements.simps) simp
      then show ?thesis using r1 by simp
    next
      case False
      then obtain ys where "parse_elements (skip_ws r1) = Some (ys, r')"
        using pe pv w
        by (subst (asm) parse_elements.simps) (auto split: if_splits dest: cons_result_rest)
      then have "length r' < length (skip_ws r1)"
        using less.hyps [OF skip_ws_shorter [OF r1]] by blast
      then show ?thesis using skip_ws_shorter [OF r1] by simp
    qed
  qed
  have pms: "length r' < length s" if pm: "parse_members s = Some (kvs', r')" for kvs' r'
  proof -
    obtain t where s: "s = CHR 0x22 # t"
      using pm by (subst (asm) parse_members.simps) (auto split: list.splits if_splits)
    obtain k r1 where pc: "parse_chars t = Some (k, r1)"
      using pm s by (subst (asm) parse_members.simps) (auto split: option.splits)
    have l1: "length r1 < length s" using parse_chars_shorter [OF pc] s by simp
    obtain c1 r2 where w1: "skip_ws r1 = c1 # r2"
      using pm s pc by (subst (asm) parse_members.simps) (auto split: list.splits)
    have l2: "length r2 < length s" using skip_ws_Cons_length [OF w1] l1 by simp
    have colon: "c1 = CHR '':''"
      using pm s pc w1 by (subst (asm) parse_members.simps) (auto split: if_splits)
    obtain v' r3 where pv: "parse_value (skip_ws r2) = Some (v', r3)"
      using pm s pc w1 colon l2
      by (subst (asm) parse_members.simps) (auto split: option.splits)
    have l3: "length r3 < length s"
      using less.hyps [OF skip_ws_shorter [OF l2]] pv skip_ws_shorter [OF l2]
      by (meson less_trans)
    obtain c3 r4 where w3: "skip_ws r3 = c3 # r4"
      using pm s pc w1 colon l2 pv
      by (subst (asm) parse_members.simps) (auto split: list.splits)
    have l4: "length r4 < length s" using skip_ws_Cons_length [OF w3] l3 by simp
    show ?thesis
    proof (cases "c3 = CHR ''}''")
      case True
      then have "r' = r4"
        using pm s pc w1 colon l2 pv w3 by (subst (asm) parse_members.simps) simp
      then show ?thesis using l4 by simp
    next
      case False
      then obtain ys where "parse_members (skip_ws r4) = Some (ys, r')"
        using pm s pc w1 colon l2 pv w3
        by (subst (asm) parse_members.simps) (auto split: if_splits dest: cons_result_rest)
      then have "length r' < length (skip_ws r4)"
        using less.hyps [OF skip_ws_shorter [OF l4]] by blast
      then show ?thesis using skip_ws_shorter [OF l4] by simp
    qed
  qed
  show ?case using pvs pes pms by blast
qed

lemma parse_value_shorter: "parse_value s = Some (v, r) \<Longrightarrow> length r < length s"
  using parsers_shorter [of s v r] by blast

text \<open>
  So the length tests in \<open>parse_elements\<close> and \<open>parse_members\<close> never fail: the two
  parsers are the plain recursive descent.
\<close>

lemma parse_elements_plain:
  "parse_elements s =
     (case parse_value s of
        None \<Rightarrow> None
      | Some (x, r) \<Rightarrow>
          (case skip_ws r of
             [] \<Rightarrow> None
           | c # r1 \<Rightarrow>
               if c = CHR '']'' then Some ([x], r1)
               else if c = CHR '','' then cons_result x (parse_elements (skip_ws r1))
               else None))"
proof (cases "parse_value s")
  case None
  then show ?thesis by (subst parse_elements.simps) simp
next
  case (Some p)
  obtain x r where p: "p = (x, r)" by (cases p)
  have l: "length r < length s" using Some p parse_value_shorter by blast
  show ?thesis
  proof (cases "skip_ws r")
    case Nil
    then show ?thesis using Some p by (subst parse_elements.simps) simp
  next
    case (Cons c r1)
    then have "length r1 < length s" using skip_ws_Cons_length [OF Cons] l by simp
    then show ?thesis using Some p Cons by (subst parse_elements.simps) simp
  qed
qed

lemma parse_members_plain:
  "parse_members s =
     (case s of
        [] \<Rightarrow> None
      | q # r \<Rightarrow>
          if q \<noteq> CHR 0x22 then None
          else
            (case parse_chars r of
               None \<Rightarrow> None
             | Some (k, r1) \<Rightarrow>
                 (case skip_ws r1 of
                    [] \<Rightarrow> None
                  | c1 # r2 \<Rightarrow>
                      if c1 = CHR '':'' then
                        (case parse_value (skip_ws r2) of
                           None \<Rightarrow> None
                         | Some (v, r3) \<Rightarrow>
                             (case skip_ws r3 of
                                [] \<Rightarrow> None
                              | c3 # r4 \<Rightarrow>
                                  if c3 = CHR ''}'' then Some ([(k, v)], r4)
                                  else if c3 = CHR '','' 
                                  then cons_result (k, v) (parse_members (skip_ws r4))
                                  else None))
                      else None)))"
proof (cases s)
  case Nil
  then show ?thesis by (subst parse_members.simps) simp
next
  case (Cons q r)
  note s = this
  show ?thesis
  proof (cases "parse_chars r")
    case None
    then show ?thesis using s by (subst parse_members.simps) simp
  next
    case (Some p)
    obtain k r1 where p: "p = (k, r1)" by (cases p)
    have l1: "length r1 < length s" using parse_chars_shorter Some p s by fastforce
    show ?thesis
    proof (cases "skip_ws r1")
      case Nil
      then show ?thesis using s Some p by (subst parse_members.simps) simp
    next
      case (Cons c1 r2)
      note w1 = this
      have l2: "length r2 < length s" using skip_ws_Cons_length [OF w1] l1 by simp
      show ?thesis
      proof (cases "parse_value (skip_ws r2)")
        case None
        then show ?thesis using s Some p w1 l2 by (subst parse_members.simps) simp
      next
        case pv: (Some p3)
        obtain v r3 where p3: "p3 = (v, r3)" by (cases p3)
        have "length r3 < length (skip_ws r2)" using pv p3 parse_value_shorter by blast
        then have l3: "length r3 < length s" using skip_ws_shorter [OF l2] by simp
        show ?thesis
        proof (cases "skip_ws r3")
          case Nil
          then show ?thesis
            using s Some p w1 l2 pv p3 by (subst parse_members.simps) simp
        next
          case (Cons c3 r4)
          then have "length r4 < length s" using skip_ws_Cons_length [OF Cons] l3 by simp
          then show ?thesis
            using s Some p w1 l2 pv p3 Cons by (subst parse_members.simps) simp
        qed
      qed
    qed
  qed
qed

section \<open>\<open>JSON.parse\<close> gives back what \<open>JSON.stringify\<close> wrote\<close>

lemma cons_result_Some [simp]: "cons_result x (Some (xs, r)) = Some (x # xs, r)"
  by (simp add: cons_result_def)

lemma hex_val_hex_char: "n < 16 \<Longrightarrow> hex_val (hex_char n) = Some n"
  by (auto simp: hex_val_def hex_char_def Let_def)

lemma hex4_low: "of_char c < (32::nat) \<Longrightarrow>
  hex4 (CHR ''0'') (CHR ''0'') (hex_char (of_char c div 16)) (hex_char (of_char c mod 16)) = Some c"
proof -
  assume lt: "of_char c < (32::nat)"
  have z: "hex_val (CHR ''0'') = Some 0" by (simp add: hex_val_def)
  have h1: "hex_val (hex_char (of_char c div 16)) = Some (of_char c div 16)"
    using lt by (intro hex_val_hex_char) simp
  have h0: "hex_val (hex_char (of_char c mod 16)) = Some (of_char c mod 16)"
    by (intro hex_val_hex_char) simp
  show ?thesis by (simp add: hex4_def z h1 h0)
qed

lemma parse_chars_escape:
  "parse_chars (escape_char c @ s) = cons_result c (parse_chars s)"
  by (auto simp: escape_char_def unescape_def hex4_low)

lemma parse_chars_quote_body:
  "parse_chars (concat (map escape_char s) @ CHR 0x22 # rest) = Some (s, rest)"
  by (induction s) (simp_all add: parse_chars_escape)


lemma char_of_eq_nat: "(char_of (n::nat) = c) \<longleftrightarrow> (n mod 256 = of_char c)"
proof -
  have "(char_of n = c) \<longleftrightarrow> ((of_char (char_of n) :: nat) = of_char c)"
    by (simp only: of_char_eq_iff)
  then show ?thesis by simp
qed

lemma is_digit_digit_char: "d < 10 \<Longrightarrow> is_digit (digit_char d)"
  by (simp add: is_digit_def digit_char_def)

lemma digit_val_digit_char: "d < 10 \<Longrightarrow> digit_val (digit_char d) = d"
  by (simp add: digit_val_def digit_char_def)

lemma digit_char_zero: "d < 10 \<Longrightarrow> digit_char d = CHR ''0'' \<longleftrightarrow> d = 0"
  by (simp add: digit_char_def char_of_eq_nat)

lemma digits_of_zero: "digits_of 0 = ''0''"
  by (subst digits_of.simps) (simp add: digit_char_def char_of_eq_nat)

lemma digits_of_all_digits: "\<forall>c \<in> set (digits_of n). is_digit c"
proof (induction n rule: digits_of.induct)
  case (1 n)
  then show ?case
    by (subst digits_of.simps) (auto simp: is_digit_digit_char)
qed

lemma digits_of_nonempty: "digits_of n \<noteq> []"
  by (subst digits_of.simps) simp

lemma nat_of_digits_snoc: "nat_of_digits (ds @ [c]) = 10 * nat_of_digits ds + digit_val c"
  by (simp add: nat_of_digits_def)

lemma digits_of_step: "\<not> n < 10 \<Longrightarrow> digits_of n = digits_of (n div 10) @ [digit_char (n mod 10)]"
  by (subst digits_of.simps) simp

lemma digits_of_small: "n < 10 \<Longrightarrow> digits_of n = [digit_char n]"
  by (subst digits_of.simps) simp

lemma nat_of_digits_digits_of: "nat_of_digits (digits_of n) = n"
proof (induction n rule: digits_of.induct)
  case (1 n)
  show ?case
  proof (cases "n < 10")
    case True
    then show ?thesis
      by (simp add: digits_of_small nat_of_digits_def digit_val_digit_char)
  next
    case False
    with 1 have "nat_of_digits (digits_of (n div 10)) = n div 10" by simp
    then show ?thesis
      using False by (simp add: digits_of_step nat_of_digits_snoc digit_val_digit_char)
  qed
qed

lemma digits_of_leading: "0 < n \<Longrightarrow> hd (digits_of n) \<noteq> CHR ''0''"
proof (induction n rule: digits_of.induct)
  case (1 n)
  show ?case
  proof (cases "n < 10")
    case True
    then show ?thesis
      using "1.prems" by (simp add: digits_of_small digit_char_zero)
  next
    case False
    then have "0 < n div 10" by simp
    with False 1 have "hd (digits_of (n div 10)) \<noteq> CHR ''0''" by simp
    then show ?thesis
      using False by (simp add: digits_of_step digits_of_nonempty)
  qed
qed

lemma digits_of_no_leading_zero: "\<not> (1 < length (digits_of n) \<and> hd (digits_of n) = CHR ''0'')"
  by (cases "n = 0") (simp_all add: digits_of_zero digits_of_leading)

lemma ends_number_not_digit: "ends_number (c # rest) \<Longrightarrow> \<not> is_digit c"
  by (auto simp: ends_number_def is_digit_def)

lemma takeWhile_digits:
  "ends_number rest \<Longrightarrow> takeWhile is_digit (digits_of n @ rest) = digits_of n"
proof (cases rest)
  case Nil
  then show ?thesis using digits_of_all_digits [of n] by simp
next
  case (Cons c cs)
  assume "ends_number rest"
  then have "\<not> is_digit c" using Cons ends_number_not_digit by simp
  then show ?thesis
    using digits_of_all_digits [of n] Cons by (simp add: takeWhile_append2)
qed

lemma dropWhile_digits:
  "ends_number rest \<Longrightarrow> dropWhile is_digit (digits_of n @ rest) = rest"
proof (cases rest)
  case Nil
  then show ?thesis using digits_of_all_digits [of n] by simp
next
  case (Cons c cs)
  assume "ends_number rest"
  then have "\<not> is_digit c" using Cons ends_number_not_digit by simp
  then show ?thesis
    using digits_of_all_digits [of n] Cons by (simp add: dropWhile_append2)
qed

lemma digits_of_hd_digit: "is_digit (hd (digits_of n))"
  using digits_of_all_digits [of n] digits_of_nonempty [of n] by (cases "digits_of n") auto

lemma ends_number_no_fraction:
  "ends_number rest \<Longrightarrow> \<not> (rest \<noteq> [] \<and> hd rest \<in> {CHR ''.'', CHR ''e'', CHR ''E''})"
  by (auto simp: ends_number_def)

lemma parse_number_unsigned:
  assumes "ends_number rest"
  shows "parse_number (digits_of n @ rest) = Some (JNum (int n), rest)"
proof -
  have nm: "hd (digits_of n @ rest) \<noteq> CHR ''-''"
    using digits_of_hd_digit [of n] digits_of_nonempty [of n]
    by (auto simp: is_digit_def)
  show ?thesis
    unfolding parse_number_def Let_def
    using nm ends_number_no_fraction [OF assms] digits_of_no_leading_zero [of n]
    by (simp add: takeWhile_digits [OF assms] dropWhile_digits [OF assms]
        digits_of_nonempty nat_of_digits_digits_of)
qed

lemma parse_number_negative:
  assumes "ends_number rest"
  shows "parse_number (CHR ''-'' # digits_of n @ rest) = Some (JNum (- int n), rest)"
  unfolding parse_number_def Let_def
  using ends_number_no_fraction [OF assms] digits_of_no_leading_zero [of n]
  by (simp add: takeWhile_digits [OF assms] dropWhile_digits [OF assms]
      digits_of_nonempty nat_of_digits_digits_of)

lemma parse_number_digits:
  assumes "ends_number rest"
  shows "parse_number (String_of_int i @ rest) = Some (JNum i, rest)"
  by (cases "i < 0")
     (simp_all add: String_of_int_def parse_number_negative [OF assms]
        parse_number_unsigned [OF assms])

lemma String_of_int_hd:
  "String_of_int i \<noteq> [] \<and> (hd (String_of_int i) = CHR ''-'' \<or> is_digit (hd (String_of_int i)))"
  using digits_of_hd_digit [of "nat i"] digits_of_nonempty [of "nat i"]
    digits_of_nonempty [of "nat (- i)"]
  by (simp add: String_of_int_def)

lemma parse_literal_number:
  assumes "ends_number rest"
  shows "parse_literal (String_of_int i @ rest) = Some (JNum i, rest)"
proof -
  obtain c cs where s: "String_of_int i = c # cs" and c: "c = CHR ''-'' \<or> is_digit c"
    using String_of_int_hd [of i] by (cases "String_of_int i") auto
  have ne: "c \<noteq> CHR ''n''" "c \<noteq> CHR ''t''" "c \<noteq> CHR ''f''"
    using c by (auto simp: is_digit_def)
  have "parse_literal ((c # cs) @ rest) = parse_number ((c # cs) @ rest)"
    using ne by (simp add: parse_literal_def take_Cons')
  then show ?thesis using s parse_number_digits [OF assms, of i] by simp
qed



lemma skip_ws_Cons: "\<not> is_ws c \<Longrightarrow> skip_ws (c # s) = c # s"
  by (simp add: skip_ws_def)

lemma quote_Cons: "quote s = CHR 0x22 # concat (map escape_char s) @ [CHR 0x22]"
  by (simp add: quote_def)

lemma stringify_hd:
  "\<exists>c cs. JSON_stringify v = c # cs \<and> \<not> is_ws c \<and> c \<noteq> CHR '']'' \<and> c \<noteq> CHR ''}''"
proof (cases v)
  case (JNum i)
  obtain c cs where s: "String_of_int i = c # cs" and c: "c = CHR ''-'' \<or> is_digit c"
    using String_of_int_hd [of i] by (cases "String_of_int i") auto
  from c have "\<not> is_ws c \<and> c \<noteq> CHR '']'' \<and> c \<noteq> CHR ''}''"
    by (auto simp: is_ws_def is_digit_def)
  then show ?thesis using JNum s by simp
qed (simp_all add: is_ws_def quote_Cons)

lemma skip_ws_stringify: "skip_ws (JSON_stringify v @ r) = JSON_stringify v @ r"
  using stringify_hd [of v] by (auto simp: skip_ws_Cons)

lemma stringify_elements_Cons:
  "stringify_elements (x # xs) =
     JSON_stringify x @ (if xs = [] then [] else CHR '','' # stringify_elements xs)"
  by (cases xs) simp_all

lemma stringify_members_Cons:
  "stringify_members ((k, v) # kvs) =
     quote k @ CHR '':'' # JSON_stringify v @
       (if kvs = [] then [] else CHR '','' # stringify_members kvs)"
  by (cases kvs) simp_all

lemma skip_ws_elements:
  "xs \<noteq> [] \<Longrightarrow> skip_ws (stringify_elements xs @ r) = stringify_elements xs @ r"
  using skip_ws_stringify by (cases xs) (simp_all add: stringify_elements_Cons)

lemma skip_ws_members:
  "kvs \<noteq> [] \<Longrightarrow> skip_ws (stringify_members kvs @ r) = stringify_members kvs @ r"
  by (cases kvs) (auto simp: stringify_members_Cons quote_Cons skip_ws_Cons is_ws_def)

lemma update_fresh: "k \<notin> fst ` set acc \<Longrightarrow> AList.update k v acc = acc @ [(k, v)]"
  by (induction acc) auto

lemma foldl_update_distinct:
  "distinct (map fst (acc @ kvs)) \<Longrightarrow>
     foldl (\<lambda>obj (k, v). AList.update k v obj) acc kvs = acc @ kvs"
proof (induction kvs arbitrary: acc)
  case Nil
  then show ?case by simp
next
  case (Cons kv kvs)
  obtain k v where kv: "kv = (k, v)" by (cases kv)
  have fresh: "k \<notin> fst ` set acc" using Cons.prems kv by auto
  have "distinct (map fst ((acc @ [(k, v)]) @ kvs))" using Cons.prems kv by simp
  then show ?case
    using Cons.IH [of "acc @ [(k, v)]"] kv by (simp add: update_fresh [OF fresh])
qed

lemma make_object_distinct: "distinct (map fst kvs) \<Longrightarrow> make_object kvs = JObj kvs"
  using foldl_update_distinct [of "[]" kvs] by (simp add: make_object_def)

lemma parse_value_null: "parse_value (''null'' @ rest) = Some (JNull, rest)"
  by (simp add: parse_value.simps parse_literal_def)

lemma parse_value_true: "parse_value (''true'' @ rest) = Some (JBool True, rest)"
  by (simp add: parse_value.simps parse_literal_def)

lemma parse_value_false: "parse_value (''false'' @ rest) = Some (JBool False, rest)"
  by (simp add: parse_value.simps parse_literal_def)

lemma parse_value_number:
  assumes "ends_number rest"
  shows "parse_value (String_of_int i @ rest) = Some (JNum i, rest)"
proof -
  obtain c cs where s: "String_of_int i = c # cs" and c: "c = CHR ''-'' \<or> is_digit c"
    using String_of_int_hd [of i] by (cases "String_of_int i") auto
  have ne: "c \<noteq> CHR ''[''" "c \<noteq> CHR ''{''" "c \<noteq> CHR 0x22"
    using c by (auto simp: is_digit_def)
  have "parse_value ((c # cs) @ rest) = parse_literal ((c # cs) @ rest)"
    using ne by (simp add: parse_value.simps)
  then show ?thesis using s parse_literal_number [OF assms, of i] by simp
qed

lemma parse_value_string: "parse_value (quote s @ rest) = Some (JStr s, rest)"
  by (simp add: parse_value.simps quote_Cons parse_chars_quote_body)

lemma elements_hd:
  "xs \<noteq> [] \<Longrightarrow> \<exists>c cs. stringify_elements xs = c # cs \<and> \<not> is_ws c \<and> c \<noteq> CHR '']''"
proof (cases xs)
  case Nil
  assume "xs \<noteq> []"
  with Nil show ?thesis by simp
next
  case (Cons x ys)
  obtain c cs where "JSON_stringify x = c # cs" "\<not> is_ws c" "c \<noteq> CHR '']''"
    using stringify_hd [of x] by blast
  then show ?thesis using Cons by (simp add: stringify_elements_Cons)
qed

lemma members_hd:
  "kvs \<noteq> [] \<Longrightarrow> \<exists>cs. stringify_members kvs = CHR 0x22 # cs"
  by (cases kvs) (auto simp: stringify_members_Cons quote_Cons)

lemma parse_value_array:
  assumes "xs \<noteq> [] \<Longrightarrow> parse_elements (stringify_elements xs @ CHR '']'' # rest) = Some (xs, rest)"
  shows "parse_value (JSON_stringify (JArr xs) @ rest) = Some (JArr xs, rest)"
proof (cases "xs = []")
  case True
  then show ?thesis
    by (simp add: parse_value.simps skip_ws_Cons is_ws_def)
next
  case False
  obtain c cs where e: "stringify_elements xs = c # cs" and c: "\<not> is_ws c" "c \<noteq> CHR '']''"
    using elements_hd [OF False] by blast
  have sk: "skip_ws (stringify_elements xs @ CHR '']'' # rest) = c # cs @ CHR '']'' # rest"
    using e c by (simp add: skip_ws_Cons)
  have "parse_value (CHR ''['' # stringify_elements xs @ CHR '']'' # rest) =
      (case parse_elements (c # cs @ CHR '']'' # rest) of
         None \<Rightarrow> None | Some (ys, r2) \<Rightarrow> Some (JArr ys, r2))"
    using c by (subst parse_value.simps) (simp add: sk)
  then show ?thesis using assms [OF False] e by simp
qed

lemma parse_value_object:
  assumes "kvs \<noteq> [] \<Longrightarrow>
      parse_members (stringify_members kvs @ CHR ''}'' # rest) = Some (kvs, rest)"
    and "distinct (map fst kvs)"
  shows "parse_value (JSON_stringify (JObj kvs) @ rest) = Some (JObj kvs, rest)"
proof (cases "kvs = []")
  case True
  then show ?thesis
    by (simp add: parse_value.simps skip_ws_Cons is_ws_def)
next
  case False
  obtain cs where e: "stringify_members kvs = CHR 0x22 # cs"
    using members_hd [OF False] by blast
  have sk: "skip_ws (stringify_members kvs @ CHR ''}'' # rest) = CHR 0x22 # cs @ CHR ''}'' # rest"
    using e by (simp add: skip_ws_Cons is_ws_def)
  have "parse_value (CHR ''{'' # stringify_members kvs @ CHR ''}'' # rest) =
      (case parse_members (CHR 0x22 # cs @ CHR ''}'' # rest) of
         None \<Rightarrow> None | Some (ms, r2) \<Rightarrow> Some (make_object ms, r2))"
    by (subst parse_value.simps) (simp add: sk)
  then show ?thesis
    using assms(1) [OF False] e by (simp add: make_object_distinct [OF assms(2)])
qed

lemma ends_number_simps [simp]:
  "ends_number []" "ends_number (CHR '','' # r)" "ends_number (CHR '']'' # r)"
  "ends_number (CHR ''}'' # r)"
  by (simp_all add: ends_number_def)

lemma parse_elements_last:
  assumes "parse_value (JSON_stringify x @ CHR '']'' # rest) = Some (x, CHR '']'' # rest)"
  shows "parse_elements (stringify_elements [x] @ CHR '']'' # rest) = Some ([x], rest)"
  by (subst parse_elements.simps) (simp add: assms skip_ws_Cons is_ws_def)

lemma parse_elements_more:
  assumes "parse_value (JSON_stringify x @ CHR '','' # stringify_elements (y # xs) @ CHR '']'' # rest)
      = Some (x, CHR '','' # stringify_elements (y # xs) @ CHR '']'' # rest)"
    and "parse_elements (stringify_elements (y # xs) @ CHR '']'' # rest) = Some (y # xs, rest)"
  shows "parse_elements (stringify_elements (x # y # xs) @ CHR '']'' # rest) = Some (x # y # xs, rest)"
  by (subst parse_elements.simps)
     (simp add: assms skip_ws_Cons is_ws_def skip_ws_elements del: stringify_elements.simps(3)
        add: stringify_elements.simps(3) [of x y xs])

lemma parse_members_key:
  "parse_members (quote k @ CHR '':'' # s) =
     (case parse_value (skip_ws s) of
        None \<Rightarrow> None
      | Some (v, r3) \<Rightarrow>
          (case skip_ws r3 of
             [] \<Rightarrow> None
           | c3 # r4 \<Rightarrow>
               if c3 = CHR ''}'' then Some ([(k, v)], r4)
               else if c3 = CHR '','' \<and> length r4 < length (quote k @ CHR '':'' # s)
               then cons_result (k, v) (parse_members (skip_ws r4))
               else None))"
  by (subst parse_members.simps)
     (simp add: quote_Cons parse_chars_quote_body skip_ws_Cons is_ws_def)

lemma parse_members_last:
  assumes "parse_value (JSON_stringify v @ CHR ''}'' # rest) = Some (v, CHR ''}'' # rest)"
  shows "parse_members (stringify_members [(k, v)] @ CHR ''}'' # rest) = Some ([(k, v)], rest)"
  using assms
  by (simp add: parse_members_key skip_ws_stringify skip_ws_Cons is_ws_def)

lemma parse_members_more:
  assumes "parse_value (JSON_stringify v @ CHR '','' # stringify_members (m # kvs) @ CHR ''}'' # rest)
      = Some (v, CHR '','' # stringify_members (m # kvs) @ CHR ''}'' # rest)"
    and "parse_members (stringify_members (m # kvs) @ CHR ''}'' # rest) = Some (m # kvs, rest)"
  shows "parse_members (stringify_members ((k, v) # m # kvs) @ CHR ''}'' # rest)
      = Some ((k, v) # m # kvs, rest)"
proof -
  have "stringify_members ((k, v) # m # kvs) @ CHR ''}'' # rest =
      quote k @ CHR '':'' # (JSON_stringify v @ CHR '','' # stringify_members (m # kvs) @ CHR ''}'' # rest)"
    by (simp add: stringify_members_Cons)
  then show ?thesis
    using assms
    by (simp only: parse_members_key skip_ws_stringify)
       (simp add: skip_ws_Cons is_ws_def skip_ws_members)
qed

lemma parse_stringify_all:
  "\<forall>rest. ends_number rest \<longrightarrow> unique_keys v \<longrightarrow>
      parse_value (JSON_stringify v @ rest) = Some (v, rest)"
  "\<forall>rest. xs \<noteq> [] \<longrightarrow> unique_keys_elements xs \<longrightarrow>
      parse_elements (stringify_elements xs @ CHR '']'' # rest) = Some (xs, rest)"
  "\<forall>rest. kvs \<noteq> [] \<longrightarrow> unique_keys_members kvs \<longrightarrow>
      parse_members (stringify_members kvs @ CHR ''}'' # rest) = Some (kvs, rest)"
proof (induction v and xs and kvs
    rule: JSON_stringify_stringify_elements_stringify_members.induct)
  case 1
  show ?case using parse_value_null by simp
next
  case (2 b)
  show ?case using parse_value_true parse_value_false by (cases b) simp_all
next
  case (3 n)
  show ?case using parse_value_number by simp
next
  case (4 s)
  show ?case using parse_value_string by simp
next
  case (5 xs)
  show ?case
  proof (intro allI impI)
    fix rest
    assume "unique_keys (JArr xs)"
    then have "xs \<noteq> [] \<Longrightarrow>
        parse_elements (stringify_elements xs @ CHR '']'' # rest) = Some (xs, rest)"
      using 5 by simp
    then show "parse_value (JSON_stringify (JArr xs) @ rest) = Some (JArr xs, rest)"
      by (rule parse_value_array)
  qed
next
  case (6 kvs)
  show ?case
  proof (intro allI impI)
    fix rest
    assume uk: "unique_keys (JObj kvs)"
    then have "kvs \<noteq> [] \<Longrightarrow>
        parse_members (stringify_members kvs @ CHR ''}'' # rest) = Some (kvs, rest)"
      using 6 by simp
    moreover have "distinct (map fst kvs)" using uk by simp
    ultimately show "parse_value (JSON_stringify (JObj kvs) @ rest) = Some (JObj kvs, rest)"
      by (rule parse_value_object)
  qed
next
  case 7
  show ?case by simp
next
  case (8 x)
  show ?case
  proof (intro allI impI)
    fix rest
    assume "unique_keys_elements [x]"
    then have "parse_value (JSON_stringify x @ CHR '']'' # rest) = Some (x, CHR '']'' # rest)"
      using 8 by simp
    then show "parse_elements (stringify_elements [x] @ CHR '']'' # rest) = Some ([x], rest)"
      by (rule parse_elements_last)
  qed
next
  case (9 x y xs)
  show ?case
  proof (intro allI impI)
    fix rest
    assume uk: "unique_keys_elements (x # y # xs)"
    have "parse_value (JSON_stringify x @ CHR '','' # stringify_elements (y # xs) @ CHR '']'' # rest)
        = Some (x, CHR '','' # stringify_elements (y # xs) @ CHR '']'' # rest)"
      using uk 9(1) by simp
    moreover have "parse_elements (stringify_elements (y # xs) @ CHR '']'' # rest)
        = Some (y # xs, rest)"
      using uk 9(2) by simp
    ultimately show "parse_elements (stringify_elements (x # y # xs) @ CHR '']'' # rest)
        = Some (x # y # xs, rest)"
      by (rule parse_elements_more)
  qed
next
  case 10
  show ?case by simp
next
  case (11 k v)
  show ?case
  proof (intro allI impI)
    fix rest
    assume "unique_keys_members [(k, v)]"
    then have "parse_value (JSON_stringify v @ CHR ''}'' # rest) = Some (v, CHR ''}'' # rest)"
      using 11 by simp
    then show "parse_members (stringify_members [(k, v)] @ CHR ''}'' # rest)
        = Some ([(k, v)], rest)"
      by (rule parse_members_last)
  qed
next
  case (12 k v m kvs)
  show ?case
  proof (intro allI impI)
    fix rest
    assume uk: "unique_keys_members ((k, v) # m # kvs)"
    have "parse_value (JSON_stringify v @ CHR '','' # stringify_members (m # kvs) @ CHR ''}'' # rest)
        = Some (v, CHR '','' # stringify_members (m # kvs) @ CHR ''}'' # rest)"
      using uk 12(1) by simp
    moreover have "parse_members (stringify_members (m # kvs) @ CHR ''}'' # rest)
        = Some (m # kvs, rest)"
      using uk 12(2) by simp
    ultimately show "parse_members (stringify_members ((k, v) # m # kvs) @ CHR ''}'' # rest)
        = Some ((k, v) # m # kvs, rest)"
      by (rule parse_members_more)
  qed
qed

theorem JSON_parse_stringify: "unique_keys v \<Longrightarrow> JSON_parse (JSON_stringify v) = Some v"
proof -
  assume "unique_keys v"
  then have "parse_value (JSON_stringify v) = Some (v, [])"
    using parse_stringify_all(1) [of v, THEN spec, of "[]"] by simp
  moreover have "skip_ws (JSON_stringify v) = JSON_stringify v"
    using skip_ws_stringify [of v "[]"] by simp
  ultimately show ?thesis by (simp add: JSON_parse_def skip_ws_def)
qed

section \<open>Properties of the database helper\<close>

lemma select_after_insert:
  "sql_select_value (sql_insert_or_replace tbl key v) key = [v]"
  by (simp add: sql_select_value_def sql_insert_or_replace_def)

lemma writeFile_db_ok:
  "write_outcome w = None \<Longrightarrow>
     fst (writeFile_db tbl w) = None \<and> db_file (snd (writeFile_db tbl w)) = Inr tbl"
  by (simp add: writeFile_db_def next_write_def)

lemma writeFile_db_fault:
  "write_outcome w = Some e \<Longrightarrow>
     fst (writeFile_db tbl w) = Some e \<and> db_file (snd (writeFile_db tbl w)) = db_file w"
  by (simp add: writeFile_db_def next_write_def emit_def)


lemma quiet_world_loads: "db_file quiet_world = Inr []" "write_outcome quiet_world = None"
  by (simp_all add: quiet_world_def write_outcome_def)










text \<open>
  Claim C7. \<open>writeToDB\<close> fails exactly when the value is \<open>null\<close> or \<open>undefined\<close> (with
  the message naming the key, before any file is touched), or the database file does not
  load, or the write of the file fails (\<open>write_outcome\<close> is the outcome of the next
  write); the error of the file operation reaches the caller as it is. In every other case the result is \<open>true\<close>.
\<close>

theorem writeToDB_fails_exactly:
  "(v = Json JNull \<or> v = Undefined \<longrightarrow>
      writeToDB key v w =
        (Inl (Error (''Cannot write null/undefined value to key: '' @ key)), w)) \<and>
   (v \<noteq> Json JNull \<and> v \<noteq> Undefined \<and> db_file w = Inl e \<longrightarrow>
      writeToDB key v w = (Inl e, w)) \<and>
   (v \<noteq> Json JNull \<and> v \<noteq> Undefined \<and> db_file w = Inr tbl \<and> write_outcome w = Some e \<longrightarrow>
      fst (writeToDB key v w) = Inl e) \<and>
   (isl (fst (writeToDB key v w)) \<longleftrightarrow>
      v = Json JNull \<or> v = Undefined \<or> isl (db_file w) \<or>
      write_outcome w \<noteq> None) \<and>
   (\<not> isl (fst (writeToDB key v w)) \<longleftrightarrow> fst (writeToDB key v w) = Inr True)"
proof (intro conjI impI)
  assume "v = Json JNull \<or> v = Undefined"
  then show "writeToDB key v w =
      (Inl (Error (''Cannot write null/undefined value to key: '' @ key)), w)"
    by (auto simp: writeToDB_def)
next
  assume "v \<noteq> Json JNull \<and> v \<noteq> Undefined \<and> db_file w = Inl e"
  then show "writeToDB key v w = (Inl e, w)"
    by (simp add: writeToDB_def)
next
  assume "v \<noteq> Json JNull \<and> v \<noteq> Undefined \<and> db_file w = Inr tbl \<and>
      write_outcome w = Some e"
  then show "fst (writeToDB key v w) = Inl e"
    by (simp add: writeToDB_def writeFile_db_def next_write_def)
next
  show "isl (fst (writeToDB key v w)) \<longleftrightarrow>
      v = Json JNull \<or> v = Undefined \<or> isl (db_file w) \<or>
      write_outcome w \<noteq> None"
    by (auto simp: writeToDB_def writeFile_db_def next_write_def
        split: sum.splits option.splits)
next
  show "\<not> isl (fst (writeToDB key v w)) \<longleftrightarrow> fst (writeToDB key v w) = Inr True"
    by (auto simp: writeToDB_def writeFile_db_def next_write_def
        split: sum.splits option.splits)
qed

theorem writeToDB_fails_exactly_witness:
  "db_file (quiet_world\<lparr>db_file := Inl (Error ''EACCES'')\<rparr>) = Inl (Error ''EACCES'') \<and>
   writeToDB ''k'' (Json (JNum 1)) (quiet_world\<lparr>db_file := Inl (Error ''EACCES'')\<rparr>) =
     (Inl (Error ''EACCES''), quiet_world\<lparr>db_file := Inl (Error ''EACCES'')\<rparr>) \<and>
   writeToDB ''k'' (Json JNull) quiet_world =
     (Inl (Error ''Cannot write null/undefined value to key: k''), quiet_world) \<and>
   db_file quiet_world = Inr [] \<and>
   fst (writeToDB ''k'' (Json (JNum 1)) (quiet_world\<lparr>write_faults := [Some (Error ''ENOSPC'')]\<rparr>)) =
     Inl (Error ''ENOSPC'') \<and>
   fst (writeToDB ''k'' (Json (JNum 1)) quiet_world) = Inr True"
proof -
  let ?v = "Json (JNum 1)"
  let ?w1 = "quiet_world\<lparr>db_file := Inl (Error ''EACCES'')\<rparr>"
  let ?w2 = "quiet_world\<lparr>write_faults := [Some (Error ''ENOSPC'')]\<rparr>"
  have v: "?v \<noteq> Json JNull \<and> ?v \<noteq> Undefined" by simp
  note q = quiet_world_loads
  have a: "db_file ?w1 = Inl (Error ''EACCES'')" by simp
  have c1: "writeToDB ''k'' ?v ?w1 = (Inl (Error ''EACCES''), ?w1)"
    using writeToDB_fails_exactly [where v = ?v and key = "''k''" and w = ?w1
        and e = "Error ''EACCES''"] a v by blast
  have c2: "writeToDB ''k'' (Json JNull) quiet_world =
      (Inl (Error ''Cannot write null/undefined value to key: k''), quiet_world)"
    using writeToDB_fails_exactly [where v = "Json JNull" and key = "''k''" and w = quiet_world]
    by simp
  have b: "db_file ?w2 = Inr [] \<and> write_outcome ?w2 = Some (Error ''ENOSPC'')"
    using q by (simp add: write_outcome_def)
  have c3: "fst (writeToDB ''k'' ?v ?w2) = Inl (Error ''ENOSPC'')"
    using writeToDB_fails_exactly [where v = ?v and key = "''k''" and w = ?w2
        and e = "Error ''ENOSPC''" and tbl = "[]"] b v
    by blast
  have "\<not> (?v = Json JNull \<or> ?v = Undefined \<or> isl (db_file quiet_world) \<or>
      write_outcome quiet_world \<noteq> None)"
    using q by simp
  then have c4: "fst (writeToDB ''k'' ?v quiet_world) = Inr True"
    using writeToDB_fails_exactly [where v = ?v and key = "''k''" and w = quiet_world] by blast
  show ?thesis using a c1 c2 q(1) c3 c4 by blast
qed

lemma delete_rows_filter:
  "delete_rows keys tbl n = (filter (\<lambda>row. fst row \<notin> set keys) tbl, n + length keys)"
proof (induction keys arbitrary: tbl n)
  case Nil
  then show ?case by simp
next
  case (Cons k keys)
  have "filter (\<lambda>row. fst row \<notin> set keys) (sql_delete tbl k) =
      filter (\<lambda>row. fst row \<notin> set (k # keys)) tbl"
    by (simp add: sql_delete_def conj_commute)
  then show ?case using Cons.IH [of "sql_delete tbl k" "n + 1"] by simp
qed

lemma delete_matching_rows:
  "delete_rows (sql_select_keys_like tbl p) tbl 0 =
     (filter (\<lambda>row. \<not> sql_like p (fst row)) tbl,
      length (filter (\<lambda>row. sql_like p (fst row)) tbl))"
proof -
  have "filter (\<lambda>row. fst row \<notin> set (sql_select_keys_like tbl p)) tbl =
      filter (\<lambda>row. \<not> sql_like p (fst row)) tbl"
    by (rule filter_cong) (auto simp: sql_select_keys_like_def)
  then show ?thesis
    by (simp add: delete_rows_filter sql_select_keys_like_def)
qed

lemma select_value_filter_other:
  "\<not> P key \<Longrightarrow> sql_select_value (filter (\<lambda>row. \<not> P (fst row)) tbl) key = sql_select_value tbl key"
  unfolding sql_select_value_def
  by (induction tbl) auto

lemma length_filter_split:
  "length (filter P xs) = length xs - length (filter (\<lambda>x. \<not> P x) xs)"
  using sum_length_filter_compl [of P xs] by simp

text \<open>
  Claim C9. When the database file loads and is written back, \<open>deleteByPattern\<close> leaves
  exactly the rows whose key does not match the pattern and returns how many rows matched.
  Whether or not the file operations succeed, every key that does not match the pattern is
  read as before, and the number returned is the number of rows that went away.
\<close>

theorem deleteByPattern_exact:
  "(db_file w = Inr tbl \<and> write_outcome w = None \<longrightarrow>
      db_file (snd (deleteByPattern p w)) = Inr (filter (\<lambda>row. \<not> sql_like p (fst row)) tbl) \<and>
      fst (deleteByPattern p w) = length (filter (\<lambda>row. sql_like p (fst row)) tbl)) \<and>
   (\<not> sql_like p key \<longrightarrow>
      readFromDB key (snd (deleteByPattern p w)) = readFromDB key w) \<and>
   fst (deleteByPattern p w) =
     length (stored_rows w) - length (stored_rows (snd (deleteByPattern p w)))"
proof (cases "db_file w")
  case (Inl e)
  then show ?thesis by (simp add: deleteByPattern_def stored_rows_def)
next
  case (Inr rows)
  let ?kept = "filter (\<lambda>row. \<not> sql_like p (fst row)) rows"
  let ?n = "length (filter (\<lambda>row. sql_like p (fst row)) rows)"
  have unfold: "deleteByPattern p w =
      (case writeFile_db ?kept w of (Some e, w1) \<Rightarrow> (0, w1) | (None, w1) \<Rightarrow> (?n, w1))"
    using Inr by (simp add: deleteByPattern_def delete_matching_rows)
  show ?thesis
  proof (cases "write_outcome w")
    case None
    have r: "fst (deleteByPattern p w) = ?n"
      and s: "snd (deleteByPattern p w) = snd (writeFile_db ?kept w)"
      using writeFile_db_ok [OF None, of ?kept]
      by (simp_all add: unfold split_def split: option.splits)
    have d: "db_file (snd (deleteByPattern p w)) = Inr ?kept"
      using s writeFile_db_ok [OF None, of ?kept] by simp
    have keep: "readFromDB key (snd (deleteByPattern p w)) = readFromDB key w"
      if "\<not> sql_like p key"
      using that Inr d by (simp add: readFromDB_def select_value_filter_other)
    have "?n = length rows - length ?kept"
      by (rule length_filter_split)
    then have count: "fst (deleteByPattern p w) =
        length (stored_rows w) - length (stored_rows (snd (deleteByPattern p w)))"
      using Inr r d by (simp add: stored_rows_def)
    have "rows = tbl" if "db_file w = Inr tbl" using that Inr by simp
    then show ?thesis using r d keep count by blast
  next
    case (Some e)
    have r: "fst (deleteByPattern p w) = 0"
      and s: "snd (deleteByPattern p w) = snd (writeFile_db ?kept w)"
      using writeFile_db_fault [OF Some, of ?kept]
      by (simp_all add: unfold split_def split: option.splits)
    have d: "db_file (snd (deleteByPattern p w)) = db_file w"
      using s writeFile_db_fault [OF Some, of ?kept] by simp
    show ?thesis using Some r d by (simp add: readFromDB_def stored_rows_def)
  qed
qed

theorem deleteByPattern_exact_witness:
  "db_file (quiet_world\<lparr>db_file := Inr three_keys\<rparr>) = Inr three_keys \<and>
   write_outcome (quiet_world\<lparr>db_file := Inr three_keys\<rparr>) = None \<and>
   fst (deleteByPattern ''foo.%'' (quiet_world\<lparr>db_file := Inr three_keys\<rparr>)) = 2 \<and>
   db_file (snd (deleteByPattern ''foo.%'' (quiet_world\<lparr>db_file := Inr three_keys\<rparr>))) =
     Inr [(''bar.c'', SqlText ''three'')] \<and>
   \<not> sql_like ''foo.%'' ''bar.c'' \<and>
   readFromDB ''bar.c'' (snd (deleteByPattern ''foo.%'' (quiet_world\<lparr>db_file := Inr three_keys\<rparr>)))
     = Json (JStr ''three'')"
proof -
  let ?w = "quiet_world\<lparr>db_file := Inr three_keys\<rparr>"
  have m1: "sql_like ''foo.%'' ''foo.a''" by code_simp
  have m2: "sql_like ''foo.%'' ''foo.b''" by code_simp
  have m3: "\<not> sql_like ''foo.%'' ''bar.c''" by code_simp
  have p: "JSON_parse ''three'' = None" by code_simp
  have h: "db_file ?w = Inr three_keys \<and> write_outcome ?w = None"
    using quiet_world_loads(2) by (simp add: write_outcome_def)
  have kept: "filter (\<lambda>row. \<not> sql_like ''foo.%'' (fst row)) three_keys =
      [(''bar.c'', SqlText ''three'')]"
    using m1 m2 m3 by (simp add: three_keys_def)
  have gone: "length (filter (\<lambda>row. sql_like ''foo.%'' (fst row)) three_keys) = 2"
    using m1 m2 m3 by (simp add: three_keys_def)
  have before: "readFromDB ''bar.c'' ?w = Json (JStr ''three'')"
    using p by (simp add: readFromDB_def sql_select_value_def three_keys_def)
  show ?thesis
    using deleteByPattern_exact [where w = ?w and tbl = three_keys and p = "''foo.%''"
        and key = "''bar.c''"] h m3 kept gone before
    by simp
qed

section \<open>Properties of the machine-id resetter\<close>




















lemma randomBytes_sha [simp]:
  "sha256 (snd (randomBytes n w)) = sha256 w" "sha512 (snd (randomBytes n w)) = sha512 w"
  by (simp_all add: randomBytes_def)

lemma uuidv4_sha [simp]:
  "sha256 (snd (uuidv4 w)) = sha256 w" "sha512 (snd (uuidv4 w)) = sha512 w"
  by (simp_all add: uuidv4_def split_def)





lemma randomBytes_draws [simp]:
  "draws (snd (randomBytes n w)) = draws w + 1" "entropy (snd (randomBytes n w)) = entropy w"
  by (simp_all add: randomBytes_def)

lemma uuidv4_draws [simp]:
  "draws (snd (uuidv4 w)) = draws w + 1" "entropy (snd (uuidv4 w)) = entropy w"
  by (simp_all add: uuidv4_def split_def)



lemma emit_fields [simp]:
  "trace (emit ev w) = trace w @ [ev]" "write_faults (emit ev w) = write_faults w"
  "storage_file (emit ev w) = storage_file w" "db_file (emit ev w) = db_file w"
  "write_outcome (emit ev w) = write_outcome w"
  by (simp_all add: emit_def write_outcome_def)

lemma outcome_at_emit [simp]: "outcome_at (emit ev w) i = outcome_at w i"
  by (simp add: outcome_at_def write_outcome_def emit_def)

lemma outcome_at_0: "outcome_at w 0 = write_outcome w"
  by (simp add: outcome_at_def write_outcome_def)

lemma writeFile_storage_fields:
  "fst (writeFile_storage c w) = write_outcome w"
  "trace (snd (writeFile_storage c w)) = trace w @ [WriteFile StorageFile]"
  "write_faults (snd (writeFile_storage c w)) = drop 1 (write_faults w)"
  "storage_file (snd (writeFile_storage c w)) =
     (if write_outcome w = None then Inr c else storage_file w)"
  by (simp_all add: writeFile_storage_def next_write_def split: option.splits)

lemma outcome_at_written [simp]:
  "outcome_at (snd (writeFile_storage c w)) i = outcome_at w (i + 1)"
  by (simp add: outcome_at_def write_outcome_def writeFile_storage_fields(3))

lemma write_loop_step:
  "i < m \<Longrightarrow>
     write_loop m i c l w =
       (case writeFile_storage c (if 0 < i then emit (Sleep (500 * (i + 1))) w else w) of
          (None, w1) \<Rightarrow> (None, w1)
        | (Some e, w1) \<Rightarrow> write_loop m (i + 1) c (Some e) w1)"
  by (subst write_loop.simps) simp

lemma write_loop_done: "\<not> i < m \<Longrightarrow> write_loop m i c l w = (l, w)"
  by (subst write_loop.simps) simp

text \<open>One attempt of the loop, by what the write does.\<close>

lemma write_loop_attempt:
  assumes "i < m"
  shows "write_loop m i c l w =
     (let w0 = (if 0 < i then emit (Sleep (500 * (i + 1))) w else w)
      in case write_outcome w0 of
           None \<Rightarrow> (None, snd (writeFile_storage c w0))
         | Some e \<Rightarrow> write_loop m (i + 1) c (Some e) (snd (writeFile_storage c w0)))"
proof -
  define w0 where "w0 = (if 0 < i then emit (Sleep (500 * (i + 1))) w else w)"
  have pair: "writeFile_storage c w0 = (write_outcome w0, snd (writeFile_storage c w0))"
    using writeFile_storage_fields(1) [of c w0] by (simp add: prod_eq_iff)
  have "write_loop m i c l w =
      (case writeFile_storage c w0 of
         (None, w1) \<Rightarrow> (None, w1)
       | (Some e, w1) \<Rightarrow> write_loop m (i + 1) c (Some e) w1)"
    unfolding w0_def by (rule write_loop_step [OF assms])
  also have "\<dots> =
      (case write_outcome w0 of
         None \<Rightarrow> (None, snd (writeFile_storage c w0))
       | Some e \<Rightarrow> write_loop m (i + 1) c (Some e) (snd (writeFile_storage c w0)))"
    by (subst pair) (simp split: option.splits)
  finally have "write_loop m i c l w =
      (case write_outcome w0 of
         None \<Rightarrow> (None, snd (writeFile_storage c w0))
       | Some e \<Rightarrow> write_loop m (i + 1) c (Some e) (snd (writeFile_storage c w0)))" .
  then show ?thesis unfolding w0_def Let_def .
qed

lemma write_loop_first_ok:
  assumes "outcome_at w 0 = None"
  shows "fst (write_loop 3 0 c None w) = None"
    and "trace (snd (write_loop 3 0 c None w)) = trace w @ take 1 three_attempts"
    and "storage_file (snd (write_loop 3 0 c None w)) = Inr c"
  using assms
  by (simp_all add: write_loop_attempt outcome_at_0 writeFile_storage_fields three_attempts_def)

lemma write_loop_second_ok:
  assumes "outcome_at w 0 = Some e1" "outcome_at w 1 = None"
  shows "fst (write_loop 3 0 c None w) = None"
    and "trace (snd (write_loop 3 0 c None w)) = trace w @ take 3 three_attempts"
    and "storage_file (snd (write_loop 3 0 c None w)) = Inr c"
proof -
  let ?w1 = "snd (writeFile_storage c w)"
  have o: "write_outcome w = Some e1" "write_outcome (emit (Sleep 1000) ?w1) = None"
    using assms outcome_at_written [of c w 0] by (simp_all add: outcome_at_0)
  have u: "write_loop 3 0 c None w = (None, snd (writeFile_storage c (emit (Sleep 1000) ?w1)))"
    using o by (simp add: write_loop_attempt)
  show "fst (write_loop 3 0 c None w) = None"
    and "trace (snd (write_loop 3 0 c None w)) = trace w @ take 3 three_attempts"
    and "storage_file (snd (write_loop 3 0 c None w)) = Inr c"
    using o by (simp_all add: u writeFile_storage_fields three_attempts_def)
qed

lemma write_loop_third:
  assumes "outcome_at w 0 = Some e1" "outcome_at w 1 = Some e2"
  shows "fst (write_loop 3 0 c None w) = outcome_at w 2"
    and "trace (snd (write_loop 3 0 c None w)) = trace w @ three_attempts"
    and "storage_file (snd (write_loop 3 0 c None w)) =
           (if outcome_at w 2 = None then Inr c else storage_file w)"
proof -
  let ?w1 = "snd (writeFile_storage c w)"
  let ?w2 = "snd (writeFile_storage c (emit (Sleep 1000) ?w1))"
  let ?w3 = "snd (writeFile_storage c (emit (Sleep 1500) ?w2))"
  have o1: "write_outcome w = Some e1"
    using assms(1) by (simp add: outcome_at_0)
  have o2: "write_outcome (emit (Sleep 1000) ?w1) = Some e2"
    using assms(2) outcome_at_written [of c w 0] by (simp add: outcome_at_0)
  have "outcome_at ?w2 0 = outcome_at w 2"
    by (simp add: numeral_2_eq_2)
  then have o3: "write_outcome (emit (Sleep 1500) ?w2) = outcome_at w 2"
    by (simp add: outcome_at_0)
  have u: "write_loop 3 0 c None w = (outcome_at w 2, ?w3)"
    using o1 o2 o3
    by (cases "outcome_at w 2") (simp_all add: write_loop_attempt write_loop_done)
  show "fst (write_loop 3 0 c None w) = outcome_at w 2"
    by (simp add: u)
  show "trace (snd (write_loop 3 0 c None w)) = trace w @ three_attempts"
    by (simp add: u writeFile_storage_fields three_attempts_def)
  show "storage_file (snd (write_loop 3 0 c None w)) =
      (if outcome_at w 2 = None then Inr c else storage_file w)"
    using o1 o2 o3 by (simp add: u writeFile_storage_fields)
qed

lemma randomBytes_keeps [simp]:
  "platform (snd (randomBytes n w)) = platform w"
  "storage_file (snd (randomBytes n w)) = storage_file w"
  "write_faults (snd (randomBytes n w)) = write_faults w"
  "trace (snd (randomBytes n w)) = trace w"
  "db_file (snd (randomBytes n w)) = db_file w"
  by (simp_all add: randomBytes_def)

lemma uuidv4_keeps [simp]:
  "platform (snd (uuidv4 w)) = platform w"
  "storage_file (snd (uuidv4 w)) = storage_file w"
  "write_faults (snd (uuidv4 w)) = write_faults w"
  "trace (snd (uuidv4 w)) = trace w"
  "db_file (snd (uuidv4 w)) = db_file w"
  by (simp_all add: uuidv4_def split_def)

lemma generateMachineIds_keeps [simp]:
  "platform (snd (generateMachineIds w)) = platform w"
  "storage_file (snd (generateMachineIds w)) = storage_file w"
  "write_faults (snd (generateMachineIds w)) = write_faults w"
  "trace (snd (generateMachineIds w)) = trace w"
  "db_file (snd (generateMachineIds w)) = db_file w"
  by (simp_all add: generateMachineIds_def split_def)

lemma generateMachineIds_outcome [simp]:
  "outcome_at (snd (generateMachineIds w)) i = outcome_at w i"
  by (simp add: outcome_at_def write_outcome_def)

lemma read_storageData_generate [simp]:
  "read_storageData (snd (generateMachineIds w)) = read_storageData w"
  by (simp add: read_storageData_def)

lemma resetMachineId_failed_update:
  "new_storageData w = Inl e \<Longrightarrow>
     resetMachineId w = (Inl (Error (RESET_FAILED @ message e)), snd (generateMachineIds w))"
  by (simp add: resetMachineId_def new_storageData_def split_def)

lemma resetMachineId_loop:
  assumes "new_storageData w = Inr doc"
  shows "fst (resetMachineId w) =
           (case fst (write_loop 3 0 (JSON_stringify_indent2 doc) None (snd (generateMachineIds w))) of
              None \<Rightarrow> Inr (fst (generateMachineIds w))
            | Some e \<Rightarrow> Inl (Error (RESET_FAILED @ message e)))"
    and "snd (resetMachineId w) =
           snd (write_loop 3 0 (JSON_stringify_indent2 doc) None (snd (generateMachineIds w)))"
  using assms
  by (simp_all add: resetMachineId_def new_storageData_def split_def split: option.splits)

lemma write_loop_trace:
  "\<exists>k\<in>{1, 3, 5}. trace (snd (write_loop 3 0 c None w)) = trace w @ take k three_attempts"
proof (cases "outcome_at w 0")
  case None
  then show ?thesis using write_loop_first_ok(2) [where w = w and c = c] by blast
next
  case (Some e1)
  note s1 = this
  show ?thesis
  proof (cases "outcome_at w 1")
    case None
    then show ?thesis using write_loop_second_ok(2) [OF s1, where c = c] by blast
  next
    case (Some e2)
    have "trace (snd (write_loop 3 0 c None w)) = trace w @ take 5 three_attempts"
      using write_loop_third(2) [OF s1 Some, where c = c] by (simp add: three_attempts_def)
    then show ?thesis by blast
  qed
qed



text \<open>
  Claim C5, as the code has it. The write of \<open>storage.json\<close> is attempted at most three
  times, with a wait of 1000 ms before the second and of 1500 ms before the third attempt
  (500 ms times the number of the attempt). When the first two attempts fail and the third
  succeeds, \<open>resetMachineId\<close> returns the identifiers and the file holds the document. When
  all three fail, the caller gets a new error whose message is the fixed prefix followed
  by the message of the error of the last attempt.
\<close>

theorem resetMachineId_retry:
  assumes "new_storageData w = Inr doc"
  shows "(outcome_at w 0 = Some e1 \<and> outcome_at w 1 = Some e2 \<and> outcome_at w 2 = None \<longrightarrow>
            fst (resetMachineId w) = Inr (fst (generateMachineIds w)) \<and>
            storage_file (snd (resetMachineId w)) = Inr (JSON_stringify_indent2 doc) \<and>
            trace (snd (resetMachineId w)) = trace w @ three_attempts) \<and>
         (outcome_at w 0 = Some e1 \<and> outcome_at w 1 = Some e2 \<and> outcome_at w 2 = Some e3 \<longrightarrow>
            fst (resetMachineId w) = Inl (Error (RESET_FAILED @ message e3)) \<and>
            storage_file (snd (resetMachineId w)) = storage_file w \<and>
            trace (snd (resetMachineId w)) = trace w @ three_attempts) \<and>
         (\<exists>k\<in>{1, 3, 5}. trace (snd (resetMachineId w)) = trace w @ take k three_attempts)"
proof (intro conjI impI)
  let ?g = "snd (generateMachineIds w)"
  let ?c = "JSON_stringify_indent2 doc"
  note loop = resetMachineId_loop [OF assms]
  {
    assume a: "outcome_at w 0 = Some e1 \<and> outcome_at w 1 = Some e2 \<and> outcome_at w 2 = None"
    then have o: "outcome_at ?g 0 = Some e1" "outcome_at ?g 1 = Some e2" "outcome_at ?g 2 = None"
      by simp_all
    show "fst (resetMachineId w) = Inr (fst (generateMachineIds w))"
      using write_loop_third(1) [OF o(1,2), where c = ?c] o(3) by (simp add: loop(1))
    show "storage_file (snd (resetMachineId w)) = Inr ?c"
      using write_loop_third(3) [OF o(1,2), where c = ?c] o(3) by (simp add: loop(2))
    show "trace (snd (resetMachineId w)) = trace w @ three_attempts"
      using write_loop_third(2) [OF o(1,2), where c = ?c] by (simp add: loop(2))
  }
  {
    assume a: "outcome_at w 0 = Some e1 \<and> outcome_at w 1 = Some e2 \<and> outcome_at w 2 = Some e3"
    then have o: "outcome_at ?g 0 = Some e1" "outcome_at ?g 1 = Some e2"
      "outcome_at ?g 2 = Some e3"
      by simp_all
    show "fst (resetMachineId w) = Inl (Error (RESET_FAILED @ message e3))"
      using write_loop_third(1) [OF o(1,2), where c = ?c] o(3) by (simp add: loop(1))
    show "storage_file (snd (resetMachineId w)) = storage_file w"
      using write_loop_third(3) [OF o(1,2), where c = ?c] o(3) by (simp add: loop(2))
    show "trace (snd (resetMachineId w)) = trace w @ three_attempts"
      using write_loop_third(2) [OF o(1,2), where c = ?c] by (simp add: loop(2))
  }
  show "\<exists>k\<in>{1, 3, 5}. trace (snd (resetMachineId w)) = trace w @ take k three_attempts"
    using write_loop_trace [where w = ?g and c = ?c] by (simp add: loop(2))
qed

lemma update_fields_object:
  "update_fields plat ids (JObj kvs) =
     Inr (JObj
       (let kvs3 =
          AList.update ''telemetry.devDeviceId'' (JStr (devDeviceId ids))
            (AList.update ''telemetry.sqmId'' (JStr (sqmId ids))
              (AList.update ''telemetry.machineId'' (JStr (machineId ids)) kvs))
        in if plat = ''darwin''
           then AList.update ''telemetry.macMachineId'' (JStr (macMachineId ids)) kvs3
           else kvs3))"
  by (simp add: update_fields_def set_property_def Let_def)


lemma new_storageData_object:
  assumes "read_storageData w = JObj kvs"
  shows "\<exists>kvs'. new_storageData w = Inr (JObj kvs') \<and>
      map_of kvs' =
        (let m3 = (map_of kvs)
               (''telemetry.machineId'' \<mapsto> JStr (machineId (fst (generateMachineIds w))),
                ''telemetry.sqmId'' \<mapsto> JStr (sqmId (fst (generateMachineIds w))),
                ''telemetry.devDeviceId'' \<mapsto> JStr (devDeviceId (fst (generateMachineIds w))))
         in if platform w = ''darwin''
            then m3(''telemetry.macMachineId'' \<mapsto> JStr (macMachineId (fst (generateMachineIds w))))
            else m3)"
  using assms
  by (simp add: new_storageData_def update_fields_object Let_def update_conv')





lemma quiet_world_storage: "read_storageData quiet_world = JObj []"
  by (simp add: read_storageData_def quiet_world_def)

lemma read_storageData_faults [simp]:
  "read_storageData (w\<lparr>write_faults := fs\<rparr>) = read_storageData w"
  by (simp add: read_storageData_def)

lemma busy_twice_outcomes:
  "outcome_at busy_twice 0 = Some (Error ''EBUSY'')"
  "outcome_at busy_twice 1 = Some (Error ''EBUSY'')"
  "outcome_at busy_twice 2 = None"
  by (simp_all add: outcome_at_def write_outcome_def busy_twice_def)

lemma busy_always_outcomes:
  "outcome_at busy_always 0 = Some (Error ''a'')"
  "outcome_at busy_always 1 = Some (Error ''b'')"
  "outcome_at busy_always 2 = Some (Error ''c'')"
  by (simp_all add: outcome_at_def write_outcome_def busy_always_def)

lemma busy_storage:
  "read_storageData busy_twice = JObj []" "read_storageData busy_always = JObj []"
  by (simp_all add: busy_twice_def busy_always_def quiet_world_storage)

lemma busy_trace: "trace busy_twice = []" "trace busy_always = []"
  by (simp_all add: busy_twice_def busy_always_def quiet_world_def)

theorem resetMachineId_retry_witness:
  "(\<exists>doc. new_storageData busy_twice = Inr doc) \<and>
   outcome_at busy_twice 0 = Some (Error ''EBUSY'') \<and>
   outcome_at busy_twice 1 = Some (Error ''EBUSY'') \<and>
   outcome_at busy_twice 2 = None \<and>
   fst (resetMachineId busy_twice) = Inr (fst (generateMachineIds busy_twice)) \<and>
   trace (snd (resetMachineId busy_twice)) =
     [WriteFile StorageFile, Sleep 1000, WriteFile StorageFile, Sleep 1500,
      WriteFile StorageFile] \<and>
   (\<exists>doc. new_storageData busy_always = Inr doc) \<and>
   outcome_at busy_always 2 = Some (Error ''c'') \<and>
   fst (resetMachineId busy_always) = Inl (Error (RESET_FAILED @ ''c''))"
proof -
  obtain doc where d: "new_storageData busy_twice = Inr doc"
    using new_storageData_object [OF busy_storage(1)] by blast
  obtain doc' where d': "new_storageData busy_always = Inr doc'"
    using new_storageData_object [OF busy_storage(2)] by blast
  have "fst (resetMachineId busy_twice) = Inr (fst (generateMachineIds busy_twice)) \<and>
      trace (snd (resetMachineId busy_twice)) = trace busy_twice @ three_attempts"
    using resetMachineId_retry [OF d, where ?e1.0 = "Error ''EBUSY''" and ?e2.0 = "Error ''EBUSY''"]
      busy_twice_outcomes
    by blast
  moreover have "fst (resetMachineId busy_always) = Inl (Error (RESET_FAILED @ ''c''))"
    using resetMachineId_retry [OF d', where ?e1.0 = "Error ''a''" and ?e2.0 = "Error ''b''"
        and ?e3.0 = "Error ''c''"]
      busy_always_outcomes
    by simp
  ultimately show ?thesis
    using d d' busy_twice_outcomes busy_always_outcomes(3)
    by (simp add: busy_trace three_attempts_def)
qed

lemma resetMachineId_exhausted:
  assumes "new_storageData w = Inr doc"
    and "outcome_at w 0 = Some e1" "outcome_at w 1 = Some e2" "outcome_at w 2 = Some e3"
  shows "fst (resetMachineId w) = Inl (Error (RESET_FAILED @ message e3))"
proof -
  let ?g = "snd (generateMachineIds w)"
  have "outcome_at ?g 0 = Some e1" "outcome_at ?g 1 = Some e2" using assms(2,3) by simp_all
  then have "fst (write_loop 3 0 (JSON_stringify_indent2 doc) None ?g) = Some e3"
    using write_loop_third(1) [where w = ?g and c = "JSON_stringify_indent2 doc"] assms(4)
    by simp
  then show ?thesis using resetMachineId_loop(1) [OF assms(1)] by simp
qed

text \<open>
  The claim as the specification states it fails: when the three attempts fail with the
  errors \<open>a\<close>, \<open>b\<close> and \<open>c\<close>, what the caller gets is none of them, but a new error with
  the prefixed message of the last.
\<close>

theorem resetMachineId_retry_counterexample:
  "outcome_at busy_always 0 = Some (Error ''a'') \<and>
   outcome_at busy_always 1 = Some (Error ''b'') \<and>
   outcome_at busy_always 2 = Some (Error ''c'') \<and>
   fst (resetMachineId busy_always) = Inl (Error (RESET_FAILED @ ''c'')) \<and>
   fst (resetMachineId busy_always) \<noteq> Inl (Error ''a'') \<and>
   fst (resetMachineId busy_always) \<noteq> Inl (Error ''b'') \<and>
   fst (resetMachineId busy_always) \<noteq> Inl (Error ''c'')"
proof -
  obtain doc where d: "new_storageData busy_always = Inr doc"
    using new_storageData_object [OF busy_storage(2)] by blast
  have r: "fst (resetMachineId busy_always) = Inl (Error (RESET_FAILED @ ''c''))"
    using resetMachineId_exhausted [OF d busy_always_outcomes] by simp
  have "RESET_FAILED @ ''c'' \<noteq> ''a''" "RESET_FAILED @ ''c'' \<noteq> ''b''"
    "RESET_FAILED @ ''c'' \<noteq> ''c''"
    by (simp_all add: RESET_FAILED_def)
  then show ?thesis using r busy_always_outcomes by simp
qed



section \<open>Properties of the account manager\<close>






section \<open>Properties of the account switcher\<close>

lemma emit_keeps [simp]:
  "commands (emit ev w) = commands w" "patch (emit ev w) = patch w"
  "platform (emit ev w) = platform w"
  by (simp_all add: emit_def)

lemma writeFile_storage_keeps [simp]:
  "db_file (snd (writeFile_storage c w)) = db_file w"
  "commands (snd (writeFile_storage c w)) = commands w"
  by (simp_all add: writeFile_storage_def next_write_def emit_def split: option.splits)

lemma write_loop_keeps:
  "db_file (snd (write_loop m i c l w)) = db_file w \<and>
   commands (snd (write_loop m i c l w)) = commands w"
proof (induction m i c l w rule: write_loop.induct)
  case (1 m i c l w)
  show ?case
  proof (cases "i < m")
    case False
    then show ?thesis by (simp add: write_loop_done)
  next
    case True
    let ?w0 = "if 0 < i then emit (Sleep (500 * (i + 1))) w else w"
    show ?thesis
    proof (cases "write_outcome ?w0")
      case None
      then show ?thesis
        using True by (simp add: write_loop_attempt Let_def)
    next
      case (Some e)
      have pair: "writeFile_storage c ?w0 = (Some e, snd (writeFile_storage c ?w0))"
        using Some writeFile_storage_fields(1) [of c ?w0] by (simp add: prod_eq_iff)
      have "db_file (snd (write_loop m (i + 1) c (Some e) (snd (writeFile_storage c ?w0)))) =
            db_file (snd (writeFile_storage c ?w0)) \<and>
          commands (snd (write_loop m (i + 1) c (Some e) (snd (writeFile_storage c ?w0)))) =
            commands (snd (writeFile_storage c ?w0))"
        using "1.IH" [OF True pair [symmetric] refl] by simp
      then show ?thesis
        using True Some by (simp add: write_loop_attempt Let_def)
    qed
  qed
qed

lemma randomBytes_commands [simp]: "commands (snd (randomBytes n w)) = commands w"
  by (simp add: randomBytes_def)

lemma uuidv4_commands [simp]: "commands (snd (uuidv4 w)) = commands w"
  by (simp add: uuidv4_def split_def)

lemma generateMachineIds_commands [simp]: "commands (snd (generateMachineIds w)) = commands w"
  by (simp add: generateMachineIds_def split_def)

lemma resetMachineId_keeps [simp]:
  "db_file (snd (resetMachineId w)) = db_file w"
  "commands (snd (resetMachineId w)) = commands w"
proof -
  have "db_file (snd (resetMachineId w)) = db_file w \<and>
      commands (snd (resetMachineId w)) = commands w"
  proof (cases "new_storageData w")
    case (Inl e)
    then show ?thesis by (simp add: resetMachineId_failed_update)
  next
    case (Inr doc)
    then show ?thesis
      using write_loop_keeps [of 3 0 "JSON_stringify_indent2 doc" None "snd (generateMachineIds w)"]
      by (simp add: resetMachineId_loop(2))
  qed
  then show "db_file (snd (resetMachineId w)) = db_file w"
    and "commands (snd (resetMachineId w)) = commands w"
    by simp_all
qed

lemma logout_reset_inject_fields:
  "fst (logout_reset_inject a w) = commands w INJECT_COMMAND"
  "db_file (snd (logout_reset_inject a w)) = db_file w"
  by (simp_all add: logout_reset_inject_def executeCommand_def split_def)

lemma uuidv4_outcome [simp]: "outcome_at (snd (uuidv4 w)) i = outcome_at w i"
  by (simp add: outcome_at_def write_outcome_def)

lemma writeToDB_unreadable:
  "v \<noteq> Json JNull \<Longrightarrow> v \<noteq> Undefined \<Longrightarrow> db_file w = Inl e \<Longrightarrow> writeToDB k v w = (Inl e, w)"
  by (simp add: writeToDB_def)

lemma writeToDB_fault:
  "v \<noteq> Json JNull \<Longrightarrow> v \<noteq> Undefined \<Longrightarrow> db_file w = Inr tbl \<Longrightarrow> outcome_at w 0 = Some e \<Longrightarrow>
     fst (writeToDB k v w) = Inl e \<and>
     trace (snd (writeToDB k v w)) = trace w @ [WriteFile DbFile]"
  by (simp add: writeToDB_def writeFile_db_def next_write_def outcome_at_0)

lemma writeToDB_written:
  assumes "v \<noteq> Json JNull" "v \<noteq> Undefined" "db_file w = Inr tbl" "outcome_at w 0 = None"
  shows "fst (writeToDB k v w) = Inr True"
    and "db_file (snd (writeToDB k v w)) = Inr (sql_insert_or_replace tbl k (SqlText (finalValue v)))"
    and "outcome_at (snd (writeToDB k v w)) i = outcome_at w (i + 1)"
    and "trace (snd (writeToDB k v w)) = trace w @ [WriteFile DbFile]"
  using assms
  by (simp_all add: writeToDB_def writeFile_db_def next_write_def outcome_at_0 outcome_at_def
      write_outcome_def emit_def)

lemma records_not_null [simp]:
  "authStatus a t \<noteq> JNull" "codeiumConfig a t \<noteq> JNull"
  by (simp_all add: authStatus_def codeiumConfig_def)

lemma writeAuthData_unfold:
  "writeAuthData a w =
     (let r1 = writeToDB ''windsurfAuthStatus'' (Json (authStatus a (fst (uuidv4 w)))) (snd (uuidv4 w))
      in case fst r1 of
           Inl e \<Rightarrow> (Inl e, snd r1)
         | Inr ok \<Rightarrow>
             (let r2 = writeToDB ''codeium.windsurf''
                         (Json (codeiumConfig a (fst (uuidv4 (snd r1))))) (snd (uuidv4 (snd r1)))
              in case fst r2 of
                   Inl e \<Rightarrow> (Inl e, snd r2)
                 | Inr ok \<Rightarrow>
                     (let r3 = writeToDB ''codeium.windsurf-windsurf_auth'' (Json (JStr (name a)))
                                 (snd r2)
                      in case fst r3 of
                           Inl e \<Rightarrow> (Inl e, snd r3)
                         | Inr ok \<Rightarrow> (Inr (), snd r3))))"
  by (simp add: writeAuthData_def split_def Let_def split: sum.splits)

lemma writeAuthData_unreadable:
  assumes "db_file w = Inl e"
  shows "fst (writeAuthData a w) = Inl e" and "db_file (snd (writeAuthData a w)) = Inl e"
proof -
  have "writeToDB ''windsurfAuthStatus'' (Json (authStatus a (fst (uuidv4 w)))) (snd (uuidv4 w)) =
      (Inl e, snd (uuidv4 w))"
    using assms by (intro writeToDB_unreadable) simp_all
  then have "writeAuthData a w = (Inl e, snd (uuidv4 w))"
    by (simp add: writeAuthData_unfold)
  then show "fst (writeAuthData a w) = Inl e" and "db_file (snd (writeAuthData a w)) = Inl e"
    using assms by simp_all
qed

lemma writeAuthData_first_fault:
  assumes "db_file w = Inr tbl" "outcome_at w 0 = Some e"
  shows "fst (writeAuthData a w) = Inl e"
proof -
  let ?r1 = "writeToDB ''windsurfAuthStatus'' (Json (authStatus a (fst (uuidv4 w)))) (snd (uuidv4 w))"
  have "fst ?r1 = Inl e"
    using assms
      writeToDB_fault [where w = "snd (uuidv4 w)" and tbl = tbl and e = e
        and v = "Json (authStatus a (fst (uuidv4 w)))" and k = "''windsurfAuthStatus''"]
    by simp
  then show ?thesis by (simp add: writeAuthData_unfold)
qed

text \<open>The worlds between the three writes, when the writes before them succeed.\<close>

lemma writeAuthData_steps:
  fixes a :: account and w :: world
  assumes db: "db_file w = Inr tbl" and o0: "outcome_at w 0 = None"
  defines "r1 \<equiv> writeToDB ''windsurfAuthStatus'' (Json (authStatus a (fst (uuidv4 w)))) (snd (uuidv4 w))"
  defines "r2 \<equiv> writeToDB ''codeium.windsurf''
                   (Json (codeiumConfig a (fst (uuidv4 (snd r1))))) (snd (uuidv4 (snd r1)))"
  defines "r3 \<equiv> writeToDB ''codeium.windsurf-windsurf_auth'' (Json (JStr (name a))) (snd r2)"
  shows "fst r1 = Inr True"
    and "outcome_at w 1 = Some e \<Longrightarrow> fst r2 = Inl e"
    and "outcome_at w 1 = None \<Longrightarrow> fst r2 = Inr True"
    and "outcome_at w 1 = None \<Longrightarrow> outcome_at w 2 = Some e \<Longrightarrow> fst r3 = Inl e"
    and "outcome_at w 1 = None \<Longrightarrow> outcome_at w 2 = None \<Longrightarrow> fst r3 = Inr True"
    and "outcome_at w 1 = None \<Longrightarrow> outcome_at w 2 = None \<Longrightarrow>
           trace (snd r3) = trace w @ [WriteFile DbFile, WriteFile DbFile, WriteFile DbFile]"
    and "outcome_at w 1 = None \<Longrightarrow> outcome_at w 2 = None \<Longrightarrow>
           db_file (snd r3) =
             Inr (sql_insert_or_replace
                   (sql_insert_or_replace
                     (sql_insert_or_replace tbl ''windsurfAuthStatus''
                        (SqlText (finalValue (Json (authStatus a (fst (uuidv4 w)))))))
                     ''codeium.windsurf''
                     (SqlText (finalValue (Json (codeiumConfig a (fst (uuidv4 (snd r1))))))))
                   ''codeium.windsurf-windsurf_auth''
                   (SqlText (finalValue (Json (JStr (name a))))))"
proof -
  let ?w1 = "snd (uuidv4 w)"
  have w1: "db_file ?w1 = Inr tbl" "outcome_at ?w1 0 = None"
    using db o0 by simp_all
  have v1: "Json (authStatus a (fst (uuidv4 w))) \<noteq> Json JNull"
    "Json (authStatus a (fst (uuidv4 w))) \<noteq> Undefined"
    by simp_all
  note first = writeToDB_written [OF v1 w1, where k = "''windsurfAuthStatus''"]
  show f1: "fst r1 = Inr True"
    unfolding r1_def by (rule first(1))
  let ?w3 = "snd (uuidv4 (snd r1))"
  define tbl1 where "tbl1 = sql_insert_or_replace tbl ''windsurfAuthStatus''
      (SqlText (finalValue (Json (authStatus a (fst (uuidv4 w))))))"
  have db1: "db_file ?w3 = Inr tbl1"
    using first(2) by (simp add: r1_def tbl1_def)
  have o1: "outcome_at ?w3 i = outcome_at w (i + 1)" for i
    using first(3) [of i] by (simp add: r1_def)
  have t1: "trace ?w3 = trace w @ [WriteFile DbFile]"
    using first(4) by (simp add: r1_def)
  have v2: "Json (codeiumConfig a (fst (uuidv4 (snd r1)))) \<noteq> Json JNull"
    "Json (codeiumConfig a (fst (uuidv4 (snd r1)))) \<noteq> Undefined"
    by simp_all
  show "fst r2 = Inl e" if "outcome_at w 1 = Some e"
    unfolding r2_def
    using writeToDB_fault [OF v2 db1, where e = e and k = "''codeium.windsurf''"] o1 [of 0] that
    by simp
  assume n1: "outcome_at w 1 = None"
  then have o10: "outcome_at ?w3 0 = None" using o1 [of 0] by simp
  note second = writeToDB_written [OF v2 db1 o10, where k = "''codeium.windsurf''"]
  show f2: "fst r2 = Inr True"
    unfolding r2_def by (rule second(1))
  define tbl2 where "tbl2 = sql_insert_or_replace tbl1 ''codeium.windsurf''
      (SqlText (finalValue (Json (codeiumConfig a (fst (uuidv4 (snd r1)))))))"
  have db2: "db_file (snd r2) = Inr tbl2"
    using second(2) by (simp add: r2_def tbl2_def)
  have o2: "outcome_at (snd r2) 0 = outcome_at w 2"
    using second(3) [of 0] o1 [of 1] by (simp add: r2_def numeral_2_eq_2)
  have t2: "trace (snd r2) = trace w @ [WriteFile DbFile, WriteFile DbFile]"
    using second(4) t1 by (simp add: r2_def)
  have nn: "Json (JStr (name a)) \<noteq> Json JNull" "Json (JStr (name a)) \<noteq> Undefined"
    by simp_all
  show "fst r3 = Inl e" if "outcome_at w 2 = Some e"
    unfolding r3_def
    using writeToDB_fault [OF nn db2, where e = e and k = "''codeium.windsurf-windsurf_auth''"]
      o2 that
    by simp
  assume n2: "outcome_at w 2 = None"
  then have o20: "outcome_at (snd r2) 0 = None" using o2 by simp
  note third = writeToDB_written [OF nn db2 o20, where k = "''codeium.windsurf-windsurf_auth''"]
  show "fst r3 = Inr True"
    unfolding r3_def by (rule third(1))
  show "trace (snd r3) = trace w @ [WriteFile DbFile, WriteFile DbFile, WriteFile DbFile]"
    using third(4) t2 by (simp add: r3_def)
  show "db_file (snd r3) =
      Inr (sql_insert_or_replace
            (sql_insert_or_replace
              (sql_insert_or_replace tbl ''windsurfAuthStatus''
                 (SqlText (finalValue (Json (authStatus a (fst (uuidv4 w)))))))
              ''codeium.windsurf''
              (SqlText (finalValue (Json (codeiumConfig a (fst (uuidv4 (snd r1))))))))
            ''codeium.windsurf-windsurf_auth''
            (SqlText (finalValue (Json (JStr (name a))))))"
    using third(2) by (simp add: r3_def tbl1_def tbl2_def)
qed

lemma writeAuthData_second_fault:
  assumes "db_file w = Inr tbl" "outcome_at w 0 = None" "outcome_at w 1 = Some e"
  shows "fst (writeAuthData a w) = Inl e"
  using writeAuthData_steps(1) [OF assms(1,2), of a]
    writeAuthData_steps(2) [OF assms(1,2) assms(3), of a]
  by (simp add: writeAuthData_unfold Let_def)

lemma writeAuthData_third_fault:
  assumes "db_file w = Inr tbl" "outcome_at w 0 = None" "outcome_at w 1 = None"
    "outcome_at w 2 = Some e"
  shows "fst (writeAuthData a w) = Inl e"
  using writeAuthData_steps(1) [OF assms(1,2), of a]
    writeAuthData_steps(3) [OF assms(1,2) assms(3), of a]
    writeAuthData_steps(4) [OF assms(1,2) assms(3,4), of a]
  by (simp add: writeAuthData_unfold Let_def)

lemma writeAuthData_written:
  assumes "db_file w = Inr tbl" "outcome_at w 0 = None" "outcome_at w 1 = None"
    "outcome_at w 2 = None"
  shows "fst (writeAuthData a w) = Inr ()"
    and "trace (snd (writeAuthData a w)) =
           trace w @ [WriteFile DbFile, WriteFile DbFile, WriteFile DbFile]"
  using writeAuthData_steps(1) [OF assms(1,2), of a]
    writeAuthData_steps(3) [OF assms(1,2) assms(3), of a]
    writeAuthData_steps(5) [OF assms(1,2) assms(3,4), of a]
    writeAuthData_steps(6) [OF assms(1,2) assms(3,4), of a]
  by (simp_all add: writeAuthData_unfold Let_def)

lemma select_after_other_insert:
  assumes "k \<noteq> k'"
  shows "sql_select_value (sql_insert_or_replace tbl k' v) k = sql_select_value tbl k"
proof -
  have "(\<lambda>row :: string \<times> sql_value. fst row \<noteq> k' \<and> fst row = k) = (\<lambda>row. fst row = k)"
    using assms by auto
  then show ?thesis
    using assms by (simp add: sql_select_value_def sql_insert_or_replace_def)
qed

lemma authStatus_unique_keys: "unique_keys (authStatus a t)"
  by (simp add: authStatus_def)

lemma writeAuthData_stored:
  assumes "db_file w = Inr tbl" "outcome_at w 0 = None" "outcome_at w 1 = None"
    "outcome_at w 2 = None"
  shows "readFromDB ''windsurfAuthStatus'' (snd (writeAuthData a w)) =
           Json (authStatus a (fst (uuidv4 w)))"
proof -
  let ?v = "SqlText (finalValue (Json (authStatus a (fst (uuidv4 w)))))"
  have "\<exists>v2 v3. db_file (snd (writeAuthData a w)) =
      Inr (sql_insert_or_replace
            (sql_insert_or_replace (sql_insert_or_replace tbl ''windsurfAuthStatus'' ?v)
               ''codeium.windsurf'' v2)
            ''codeium.windsurf-windsurf_auth'' v3)"
    using writeAuthData_steps(1) [OF assms(1,2), of a]
      writeAuthData_steps(3) [OF assms(1,2) assms(3), of a]
      writeAuthData_steps(5) [OF assms(1,2) assms(3,4), of a]
      writeAuthData_steps(7) [OF assms(1,2) assms(3,4), of a]
    by (simp add: writeAuthData_unfold Let_def) blast
  then obtain v2 v3 where db: "db_file (snd (writeAuthData a w)) =
      Inr (sql_insert_or_replace
            (sql_insert_or_replace (sql_insert_or_replace tbl ''windsurfAuthStatus'' ?v)
               ''codeium.windsurf'' v2)
            ''codeium.windsurf-windsurf_auth'' v3)"
    by blast
  have sel: "sql_select_value
      (sql_insert_or_replace
        (sql_insert_or_replace (sql_insert_or_replace tbl ''windsurfAuthStatus'' x)
           ''codeium.windsurf'' v2)
        ''codeium.windsurf-windsurf_auth'' v3)
      ''windsurfAuthStatus'' = [x]" for x
    by (simp add: select_after_other_insert select_after_insert)
  have fv: "finalValue (Json (authStatus a (fst (uuidv4 w)))) =
      JSON_stringify (authStatus a (fst (uuidv4 w)))"
    by (simp add: finalValue_def authStatus_def)
  have p: "JSON_parse (JSON_stringify (authStatus a (fst (uuidv4 w)))) =
      Some (authStatus a (fst (uuidv4 w)))"
    by (rule JSON_parse_stringify [OF authStatus_unique_keys])
  show ?thesis
    by (simp add: readFromDB_def db sel fv p)
qed

lemma switchAccount_patched:
  assumes "patch w = Inr pr" "\<not> patch_needsRestart pr" "\<not> truthy (patch_error pr)"
  shows "switchAccount a w =
     (case commands w INJECT_COMMAND of
        Some e \<Rightarrow> fallback a (snd (logout_reset_inject a w))
      | None \<Rightarrow>
          (case fst (writeAuthData a (snd (logout_reset_inject a w))) of
             Inl e \<Rightarrow> fallback a (snd (writeAuthData a (snd (logout_reset_inject a w))))
           | Inr ok \<Rightarrow>
               (\<lparr>success = True, error = None, needsRestart = None\<rparr>,
                emit (ShowInformationMessage (SWITCHED_NOTICE @ email a))
                  (snd (writeAuthData a (snd (logout_reset_inject a w)))))))"
proof -
  have pair: "logout_reset_inject a w =
      (commands w INJECT_COMMAND, snd (logout_reset_inject a w))"
    using logout_reset_inject_fields(1) [of a w] by (simp add: prod_eq_iff)
  show ?thesis
    unfolding switchAccount_def
    by (subst pair) (simp add: assms split_def split: option.splits sum.splits)
qed

lemma fallback_result:
  "fallback a w =
     (case fst (writeAuthData a w) of
        Inl e \<Rightarrow>
          (\<lparr>success = False, error = Some (message e), needsRestart = None\<rparr>,
           snd (writeAuthData a w))
      | Inr ok \<Rightarrow>
          (\<lparr>success = True, error = None, needsRestart = None\<rparr>,
           emit (ReloadWindowAfter 1500) (snd (writeAuthData a w))))"
  by (simp add: fallback_def split_def split: sum.splits)

text \<open>
  Claim C4. When the patch check reports that a restart is needed, \<open>switchAccount\<close>
  returns \<open>success: false\<close> with \<open>needsRestart: true\<close>, and all it has done is to show
  the notice and to schedule the reload: no command was executed, no file written, no
  random block drawn.
\<close>

theorem switchAccount_needs_restart:
  assumes "patch w = Inr pr" and "patch_needsRestart pr"
  shows "switchAccount a w =
     (\<lparr>success = False, error = Some PATCH_RESTART_ERROR, needsRestart = Some True\<rparr>,
      w\<lparr>trace := trace w @ [ShowInformationMessage PATCH_RESTART_NOTICE, ReloadWindowAfter 1500]\<rparr>)"
  using assms by (simp add: switchAccount_def emit_def)

theorem switchAccount_needs_restart_witness:
  "patch patch_fresh = Inr \<lparr>patch_needsRestart = True, patch_error = None\<rparr> \<and>
   patch_needsRestart \<lparr>patch_needsRestart = True, patch_error = None\<rparr> \<and>
   success (fst (switchAccount alice patch_fresh)) = False \<and>
   needsRestart (fst (switchAccount alice patch_fresh)) = Some True \<and>
   trace (snd (switchAccount alice patch_fresh)) =
     [ShowInformationMessage PATCH_RESTART_NOTICE, ReloadWindowAfter 1500] \<and>
   db_file (snd (switchAccount alice patch_fresh)) = db_file patch_fresh \<and>
   storage_file (snd (switchAccount alice patch_fresh)) = storage_file patch_fresh"
proof -
  have p: "patch patch_fresh = Inr \<lparr>patch_needsRestart = True, patch_error = None\<rparr>"
    by (simp add: patch_fresh_def)
  have t: "trace patch_fresh = []"
    by (simp add: patch_fresh_def quiet_world_def)
  show ?thesis
    using switchAccount_needs_restart [OF p, of alice] p t by simp
qed

text \<open>
  Claim C3. Let the patch be in place and the injection command throw. When the three
  writes of \<open>writeAuthData\<close> then succeed, \<open>switchAccount\<close> schedules the reload and returns
  \<open>success: true\<close>, and the key \<open>windsurfAuthStatus\<close> reads as the new snapshot.
  When the database file does not load, or one of the three writes fails, it returns \<open>success: false\<close> with the message of that error, and nothing is done
  after the failed write.
\<close>

theorem switchAccount_fallback:
  assumes "patch w = Inr pr" and "\<not> patch_needsRestart pr" and "\<not> truthy (patch_error pr)"
    and "commands w INJECT_COMMAND = Some e"
  shows "(db_file (snd (logout_reset_inject a w)) = Inr tbl \<and>
          outcome_at (snd (logout_reset_inject a w)) 0 = None \<and>
          outcome_at (snd (logout_reset_inject a w)) 1 = None \<and>
          outcome_at (snd (logout_reset_inject a w)) 2 = None \<longrightarrow>
            fst (switchAccount a w) = \<lparr>success = True, error = None, needsRestart = None\<rparr> \<and>
            trace (snd (switchAccount a w)) =
              trace (snd (logout_reset_inject a w)) @
                [WriteFile DbFile, WriteFile DbFile, WriteFile DbFile, ReloadWindowAfter 1500] \<and>
            readFromDB ''windsurfAuthStatus'' (snd (switchAccount a w)) =
              Json (authStatus a (fst (uuidv4 (snd (logout_reset_inject a w)))))) \<and>
         (db_file (snd (logout_reset_inject a w)) = Inl e' \<or>
          db_file (snd (logout_reset_inject a w)) = Inr tbl \<and>
            (outcome_at (snd (logout_reset_inject a w)) 0 = Some e' \<or>
             outcome_at (snd (logout_reset_inject a w)) 0 = None \<and>
               (outcome_at (snd (logout_reset_inject a w)) 1 = Some e' \<or>
                outcome_at (snd (logout_reset_inject a w)) 1 = None \<and>
                  outcome_at (snd (logout_reset_inject a w)) 2 = Some e')) \<longrightarrow>
            fst (switchAccount a w) =
              \<lparr>success = False, error = Some (message e'), needsRestart = None\<rparr> \<and>
            snd (switchAccount a w) = snd (writeAuthData a (snd (logout_reset_inject a w))))"
proof -
  let ?w3 = "snd (logout_reset_inject a w)"
  have sw: "switchAccount a w = fallback a ?w3"
    using assms by (simp add: switchAccount_patched)
  have ok: "fst (switchAccount a w) = \<lparr>success = True, error = None, needsRestart = None\<rparr> \<and>
      trace (snd (switchAccount a w)) =
        trace ?w3 @ [WriteFile DbFile, WriteFile DbFile, WriteFile DbFile, ReloadWindowAfter 1500] \<and>
      readFromDB ''windsurfAuthStatus'' (snd (switchAccount a w)) =
        Json (authStatus a (fst (uuidv4 ?w3)))"
    if "db_file ?w3 = Inr tbl" "outcome_at ?w3 0 = None" "outcome_at ?w3 1 = None"
      "outcome_at ?w3 2 = None"
    using writeAuthData_written [OF that, of a] writeAuthData_stored [OF that, of a]
    by (simp add: sw fallback_result readFromDB_def)
  have bad: "fst (switchAccount a w) =
        \<lparr>success = False, error = Some (message e'), needsRestart = None\<rparr> \<and>
      snd (switchAccount a w) = snd (writeAuthData a ?w3)"
    if "fst (writeAuthData a ?w3) = Inl e'"
    using that by (simp add: sw fallback_result)
  have "fst (writeAuthData a ?w3) = Inl e'"
    if "db_file ?w3 = Inl e' \<or>
        db_file ?w3 = Inr tbl \<and>
          (outcome_at ?w3 0 = Some e' \<or>
           outcome_at ?w3 0 = None \<and>
             (outcome_at ?w3 1 = Some e' \<or>
              outcome_at ?w3 1 = None \<and> outcome_at ?w3 2 = Some e'))"
    using that writeAuthData_unreadable(1) writeAuthData_first_fault
      writeAuthData_second_fault writeAuthData_third_fault
    by blast
  then show ?thesis using ok bad by blast
qed

lemma writeFile_storage_faults:
  "write_faults w = [] \<Longrightarrow> write_faults (snd (writeFile_storage c w)) = []"
  by (simp add: writeFile_storage_fields(3))

lemma write_loop_no_faults:
  "write_faults w = [] \<Longrightarrow> write_faults (snd (write_loop 3 0 c None w)) = []"
proof -
  assume e: "write_faults w = []"
  then have "write_outcome w = None" by (simp add: write_outcome_def)
  then have "write_loop 3 0 c None w = (None, snd (writeFile_storage c w))"
    by (simp add: write_loop_attempt)
  then show ?thesis using e by (simp add: writeFile_storage_faults)
qed

lemma resetMachineId_no_faults:
  "write_faults w = [] \<Longrightarrow> write_faults (snd (resetMachineId w)) = []"
proof (cases "new_storageData w")
  case (Inl e)
  assume "write_faults w = []"
  then show ?thesis using Inl by (simp add: resetMachineId_failed_update)
next
  case (Inr doc)
  assume "write_faults w = []"
  then show ?thesis
    using write_loop_no_faults [of "snd (generateMachineIds w)" "JSON_stringify_indent2 doc"]
    by (simp add: resetMachineId_loop(2) [OF Inr])
qed

lemma logout_reset_inject_no_faults:
  "write_faults w = [] \<Longrightarrow> outcome_at (snd (logout_reset_inject a w)) i = None"
proof -
  assume "write_faults w = []"
  then have "write_faults (snd (resetMachineId (emit (ExecuteCommand ''windsurf.logout'' []) w))) = []"
    by (intro resetMachineId_no_faults) simp
  then show ?thesis
    by (simp add: logout_reset_inject_def executeCommand_def split_def outcome_at_def
        write_outcome_def emit_def)
qed

lemma no_injection_facts:
  "patch no_injection = Inr \<lparr>patch_needsRestart = False, patch_error = None\<rparr>"
  "commands no_injection INJECT_COMMAND = Some (Error ''command not found'')"
  "write_faults no_injection = []"
  "db_file no_injection = Inr []"
  by (simp_all add: no_injection_def quiet_world_def)

theorem switchAccount_fallback_witness:
  "patch no_injection = Inr \<lparr>patch_needsRestart = False, patch_error = None\<rparr> \<and>
   commands no_injection INJECT_COMMAND = Some (Error ''command not found'') \<and>
   db_file (snd (logout_reset_inject alice no_injection)) = Inr [] \<and>
   outcome_at (snd (logout_reset_inject alice no_injection)) 0 = None \<and>
   outcome_at (snd (logout_reset_inject alice no_injection)) 1 = None \<and>
   outcome_at (snd (logout_reset_inject alice no_injection)) 2 = None \<and>
   fst (switchAccount alice no_injection) =
     \<lparr>success = True, error = None, needsRestart = None\<rparr> \<and>
   last (trace (snd (switchAccount alice no_injection))) = ReloadWindowAfter 1500 \<and>
   db_file (snd (logout_reset_inject alice (no_injection\<lparr>db_file := Inl (Error ''EACCES'')\<rparr>))) =
     Inl (Error ''EACCES'') \<and>
   fst (switchAccount alice (no_injection\<lparr>db_file := Inl (Error ''EACCES'')\<rparr>)) =
     \<lparr>success = False, error = Some ''EACCES'', needsRestart = None\<rparr>"
proof -
  let ?pr = "\<lparr>patch_needsRestart = False, patch_error = None\<rparr>"
  let ?w3 = "snd (logout_reset_inject alice no_injection)"
  let ?bad = "no_injection\<lparr>db_file := Inl (Error ''EACCES'')\<rparr>"
  have pr: "\<not> patch_needsRestart ?pr" "\<not> truthy (patch_error ?pr)"
    by (simp_all add: truthy_def)
  have db: "db_file ?w3 = Inr []"
    using no_injection_facts(4) by (simp add: logout_reset_inject_fields(2))
  have o: "outcome_at ?w3 0 = None" "outcome_at ?w3 1 = None" "outcome_at ?w3 2 = None"
    using logout_reset_inject_no_faults [OF no_injection_facts(3)] by simp_all
  have good: "fst (switchAccount alice no_injection) =
        \<lparr>success = True, error = None, needsRestart = None\<rparr> \<and>
      trace (snd (switchAccount alice no_injection)) =
        trace ?w3 @ [WriteFile DbFile, WriteFile DbFile, WriteFile DbFile, ReloadWindowAfter 1500] \<and>
      readFromDB ''windsurfAuthStatus'' (snd (switchAccount alice no_injection)) =
        Json (authStatus alice (fst (uuidv4 ?w3)))"
    using switchAccount_fallback [OF no_injection_facts(1) pr no_injection_facts(2),
        where a = alice and tbl = "[]"] db o
    by blast
  have bp: "patch ?bad = Inr ?pr"
    "commands ?bad INJECT_COMMAND = Some (Error ''command not found'')"
    using no_injection_facts(1,2) by simp_all
  have bdb: "db_file (snd (logout_reset_inject alice ?bad)) = Inl (Error ''EACCES'')"
    by (simp add: logout_reset_inject_fields(2))
  have fail: "fst (switchAccount alice ?bad) =
      \<lparr>success = False, error = Some (message (Error ''EACCES'')), needsRestart = None\<rparr>"
    using switchAccount_fallback [OF bp(1) pr bp(2), where a = alice and e' = "Error ''EACCES''"]
      bdb
    by blast
  show ?thesis
    using no_injection_facts(1,2) db o good bdb fail by simp
qed

lemma switchAccount_injected_unreadable:
  assumes "patch w = Inr pr" "\<not> patch_needsRestart pr" "\<not> truthy (patch_error pr)"
    and "commands w INJECT_COMMAND = None" and "db_file w = Inl e"
  shows "fst (switchAccount a w) =
     \<lparr>success = False, error = Some (message e), needsRestart = None\<rparr>"
proof -
  let ?w3 = "snd (logout_reset_inject a w)"
  let ?w4 = "snd (writeAuthData a ?w3)"
  have db3: "db_file ?w3 = Inl e"
    using assms(5) by (simp add: logout_reset_inject_fields(2))
  have first: "fst (writeAuthData a ?w3) = Inl e" and db4: "db_file ?w4 = Inl e"
    using writeAuthData_unreadable [OF db3] by simp_all
  have again: "fst (writeAuthData a ?w4) = Inl e"
    using writeAuthData_unreadable(1) [OF db4] .
  have "switchAccount a w = fallback a ?w4"
    using assms(1-4) first by (simp add: switchAccount_patched)
  then show ?thesis using again by (simp add: fallback_result)
qed

text \<open>
  Claim C2 at an input on which the code departs from it: the patch is in place, every
  command succeeds, the injection with them, and the database file cannot be read. The
  write that follows the injection throws inside the inner \<open>try\<close>; the inner \<open>catch\<close>
  takes it for a failed injection, writes again, and the switch ends with
  \<open>success: false\<close> although the session has been injected.
\<close>

theorem switchAccount_backstop_failure:
  "patch db_unreadable = Inr \<lparr>patch_needsRestart = False, patch_error = None\<rparr> \<and>
   commands db_unreadable INJECT_COMMAND = None \<and>
   db_file db_unreadable = Inl (Error ''ENOENT: state.vscdb'') \<and>
   fst (switchAccount alice db_unreadable) =
     \<lparr>success = False, error = Some ''ENOENT: state.vscdb'', needsRestart = None\<rparr>"
proof -
  let ?pr = "\<lparr>patch_needsRestart = False, patch_error = None\<rparr>"
  have f: "patch db_unreadable = Inr ?pr" "commands db_unreadable INJECT_COMMAND = None"
    "db_file db_unreadable = Inl (Error ''ENOENT: state.vscdb'')"
    by (simp_all add: db_unreadable_def quiet_world_def)
  have pr: "\<not> patch_needsRestart ?pr" "\<not> truthy (patch_error ?pr)"
    by (simp_all add: truthy_def)
  show ?thesis
    using switchAccount_injected_unreadable [OF f(1) pr f(2,3), of alice] f by simp
qed

lemma switchAccount_injected_written:
  assumes "patch w = Inr pr" "\<not> patch_needsRestart pr" "\<not> truthy (patch_error pr)"
    and "commands w INJECT_COMMAND = None"
    and "db_file (snd (logout_reset_inject a w)) = Inr tbl"
    and "outcome_at (snd (logout_reset_inject a w)) 0 = None"
    and "outcome_at (snd (logout_reset_inject a w)) 1 = None"
    and "outcome_at (snd (logout_reset_inject a w)) 2 = None"
  shows "fst (switchAccount a w) = \<lparr>success = True, error = None, needsRestart = None\<rparr>"
  using writeAuthData_written(1) [OF assms(5-8), of a] assms(1-4)
  by (simp add: switchAccount_patched)

end
